theory Spec2Isabelle
  imports Complex_Main
begin

section \<open>Provider errors (baseProvider.ts, errorHandler.ts)\<close>

text \<open>
  A thrown JavaScript value as the resilience wrapper reads it: \<open>error.code\<close>,
  \<open>error.response.status\<close> (absent on every error made by \<open>createError\<close>),
  the message, and the \<open>details\<close> object, which is either undefined, the
  \<open>{ lastError }\<close> object of the wrapper or an \<open>{ error }\<close> object naming a cause.
\<close>

datatype js_error =
  JsError (err_name: string) (err_provider: "string option") (code: "string option")
    (message: string) (response_status: "int option") (details: details)
and details = Undefined | LastError "js_error option" | Cause js_error

text \<open>The fields of \<open>BaseImageProvider\<close> and its constructor.\<close>

record BaseImageProvider =
  name :: string
  timeout :: nat
  retryAttempts :: nat
  retryDelay :: nat

definition new_BaseImageProvider :: "string \<Rightarrow> nat \<Rightarrow> BaseImageProvider" where
  "new_BaseImageProvider nm t =
     \<lparr> name = nm, timeout = t, retryAttempts = 3, retryDelay = 1000 \<rparr>"

definition createError :: "BaseImageProvider \<Rightarrow> string \<Rightarrow> string \<Rightarrow> details \<Rightarrow> js_error" where
  "createError this c msg d = JsError ''ProviderError'' (Some (name this)) (Some c) msg None d"

text \<open>Decimal digits of a number inside a template literal.\<close>

fun string_of_nat :: "nat \<Rightarrow> string" where
  "string_of_nat n =
     (if n < 10 then [''0123456789'' ! n]
      else string_of_nat (n div 10) @ [''0123456789'' ! (n mod 10)])"

declare string_of_nat.simps [simp del]

text \<open>\<open>ImageGenerationError.isRetryableByCode\<close> of errorHandler.ts.\<close>

definition retryableCodes :: "string list" where
  "retryableCodes = [''TIMEOUT'', ''SERVICE_UNAVAILABLE'', ''NETWORK_ERROR'', ''RATE_LIMIT_EXCEEDED'']"

definition isRetryableByCode :: "string \<Rightarrow> bool" where
  "isRetryableByCode c = (c \<in> set retryableCodes)"

text \<open>\<open>BaseImageProvider.isClientError\<close>: an HTTP 4xx status, or one of five codes.\<close>

definition nonRetryableErrorCodes :: "string list" where
  "nonRetryableErrorCodes =
     [''INVALID_REQUEST'', ''AUTHENTICATION_FAILED'', ''PERMISSION_DENIED'',
      ''QUOTA_EXCEEDED'', ''CONTENT_POLICY_VIOLATION'']"

definition isClientError :: "js_error \<Rightarrow> bool" where
  "isClientError error =
     (if (case response_status error of Some s \<Rightarrow> 400 \<le> s \<and> s < 500 | None \<Rightarrow> False)
      then True
      else (case code error of Some c \<Rightarrow> c \<in> set nonRetryableErrorCodes | None \<Rightarrow> False))"

section \<open>The resilience wrapper (BaseImageProvider.executeWithRetry)\<close>

text \<open>
  One invocation of the wrapped operation either resolves, rejects, or is still pending
  when the timeout promise rejects. The operation is a thunk that may behave differently
  each time it is called, so it is given as the outcome of its n-th invocation.
\<close>

datatype 'a attempt = Returns 'a | Throws js_error | Hangs

definition createTimeoutPromise :: "BaseImageProvider \<Rightarrow> string \<Rightarrow> js_error" where
  "createTimeoutPromise this operationName =
     createError this ''TIMEOUT''
       (operationName @ '' timed out after '' @ string_of_nat (timeout this) @ ''ms'') Undefined"

definition race :: "BaseImageProvider \<Rightarrow> string \<Rightarrow> 'a attempt \<Rightarrow> js_error + 'a" where
  "race this operationName oc =
     (case oc of
        Returns v \<Rightarrow> Inr v
      | Throws e \<Rightarrow> Inl e
      | Hangs \<Rightarrow> Inl (createTimeoutPromise this operationName))"

text \<open>
  What the wrapper does to the world: it calls the operation (for the n-th time) and it
  sleeps (so many milliseconds). Numbers are natural numbers; JavaScript's doubles agree
  with them below \<open>2 ^ 53\<close>, far above what three attempts and a base delay of one
  second reach.
\<close>

datatype event = is_Invoke: Invoke nat | Delay nat

definition invocations :: "event list \<Rightarrow> nat" where
  "invocations evs = length (filter is_Invoke evs)"

definition delays :: "event list \<Rightarrow> nat list" where
  "delays evs = concat (map (\<lambda>ev. case ev of Invoke n \<Rightarrow> [] | Delay ms \<Rightarrow> [ms]) evs)"

text \<open>
  The \<open>for\<close> loop of \<open>executeWithRetry\<close>, from \<open>attempt\<close> on, with the loop variable
  \<open>lastError\<close>. The result is what the promise settles with (\<open>Inl\<close> a rejection)
  and the events in order.
\<close>

function executeWithRetry_loop ::
  "BaseImageProvider \<Rightarrow> (nat \<Rightarrow> 'a attempt) \<Rightarrow> string \<Rightarrow> nat \<Rightarrow> js_error option
     \<Rightarrow> (js_error + 'a) \<times> event list" where
  "executeWithRetry_loop this operation operationName attempt lastError =
     (if attempt \<le> retryAttempts this then
        (case race this operationName (operation attempt) of
           Inr v \<Rightarrow> (Inr v, [Invoke attempt])
         | Inl error \<Rightarrow>
             if isClientError error then (Inl error, [Invoke attempt])
             else if attempt < retryAttempts this then
               (case executeWithRetry_loop this operation operationName (attempt + 1) (Some error) of
                  (r, evs) \<Rightarrow> (r, Invoke attempt # Delay (retryDelay this * 2 ^ (attempt - 1)) # evs))
             else
               (case executeWithRetry_loop this operation operationName (attempt + 1) (Some error) of
                  (r, evs) \<Rightarrow> (r, Invoke attempt # evs)))
      else
        (Inl (createError this ''OPERATION_FAILED''
                (''Failed to '' @ operationName @ '' after '' @ string_of_nat (retryAttempts this)
                   @ '' attempts'')
                (LastError lastError)), []))"
  by pat_completeness auto
termination
  by (relation "measure (\<lambda>(this, operation, operationName, attempt, lastError).
        Suc (retryAttempts this) - attempt)") auto

declare executeWithRetry_loop.simps [simp del]

definition executeWithRetry ::
  "BaseImageProvider \<Rightarrow> (nat \<Rightarrow> 'a attempt) \<Rightarrow> string \<Rightarrow> (js_error + 'a) \<times> event list" where
  "executeWithRetry this operation operationName =
     executeWithRetry_loop this operation operationName 1 None"

text \<open>An operation that rejects with the same error every time it is called.\<close>

definition alwaysThrows :: "js_error \<Rightarrow> nat \<Rightarrow> 'a attempt" where
  "alwaysThrows e n = Throws e"

section \<open>Requests and results (types/index.ts)\<close>

text \<open>
  A prompt is a JavaScript string: a sequence of UTF-16 code units, here numbers, so that
  \<open>length\<close> counts what \<open>prompt.length\<close> counts and the Unicode white space outside
  Latin-1 is a single unit. Program literals are ASCII.
\<close>

type_synonym js_string = "nat list"

definition utf16 :: "string \<Rightarrow> js_string" where
  "utf16 s = map of_char s"

datatype ImageStyle =
  Realistic | Cartoon | Anime | OilPainting | Watercolor | Sketch | DigitalArt | Cyberpunk
  | Steampunk | Minimalist | Vintage | PopArt | Surreal | Photographic | Abstract

datatype quality = Standard | Hd

datatype image_format = Png | Jpeg | Webp

record ImageDimensions =
  width :: int
  height :: int

record ImageGenerationRequest =
  prompt :: js_string
  style :: "ImageStyle option"
  dimensions :: "ImageDimensions option"
  quality :: "quality option"
  count :: "int option"
  format :: "image_format option"
  transparent :: "bool option"
  negativePrompt :: "js_string option"
  seed :: "int option"

text \<open>Of a generated image only the locator, format, dimensions and byte size are kept.\<close>

record GeneratedImage =
  url :: string
  image_format :: string
  image_dimensions :: ImageDimensions
  image_size :: nat

record ImageGenerationResult =
  success :: bool
  images :: "GeneratedImage list"
  provider :: string
  requestId :: string
  error :: "string option"

section \<open>Request validation (BaseImageProvider.validateRequest)\<close>

text \<open>
  White space as \<open>String.prototype.trim\<close> and the class \<open>\s\<close> of a regular
  expression take it: the WhiteSpace and LineTerminator code points of ECMAScript.
\<close>

definition isWhiteSpace :: "nat \<Rightarrow> bool" where
  "isWhiteSpace c =
     (c \<in> {9, 10, 11, 12, 13, 32, 160, 5760, 8232, 8233, 8239, 8287, 12288, 65279}
      \<or> (8192 \<le> c \<and> c \<le> 8202))"

definition trim :: "js_string \<Rightarrow> js_string" where
  "trim s = rev (dropWhile isWhiteSpace (rev (dropWhile isWhiteSpace s)))"

text \<open>
  \<open>request.count &&\<close> is JavaScript truthiness: an absent count and the count 0 both
  skip the range check. Width and height are whole numbers of pixels, as the schemas of
  the tools demand. The aspect ratio is the quotient \<open>width / height\<close>; it is only
  computed once both sides are known to lie in 64..2048, and for such numbers the
  floating-point quotient of the source compares with 0.25 and 4 as the exact quotient
  does.
\<close>

definition validateRequest :: "BaseImageProvider \<Rightarrow> ImageGenerationRequest \<Rightarrow> js_error + unit" where
  "validateRequest this request =
     (if prompt request = [] \<or> length (trim (prompt request)) = 0 then
        Inl (createError this ''INVALID_REQUEST'' ''Prompt is required'' Undefined)
      else if length (prompt request) > 4000 then
        Inl (createError this ''INVALID_REQUEST'' ''Prompt is too long (max 4000 characters)'' Undefined)
      else if (case count request of
                 Some c \<Rightarrow> c \<noteq> 0 \<and> (c < 1 \<or> c > 10)
               | None \<Rightarrow> False) then
        Inl (createError this ''INVALID_REQUEST'' ''Count must be between 1 and 10'' Undefined)
      else
        (case dimensions request of
           None \<Rightarrow> Inr ()
         | Some d \<Rightarrow>
             if width d < 64 \<or> width d > 2048 \<or> height d < 64 \<or> height d > 2048 then
               Inl (createError this ''INVALID_REQUEST''
                      ''Dimensions must be between 64x64 and 2048x2048'' Undefined)
             else
               (let aspectRatio = real_of_int (width d) / real_of_int (height d)
                in if aspectRatio < 0.25 \<or> aspectRatio > 4 then
                     Inl (createError this ''INVALID_REQUEST''
                            ''Invalid aspect ratio (must be between 1:4 and 4:1)'' Undefined)
                   else Inr ())))"

section \<open>Prompt sanitisation (BaseImageProvider.sanitizePrompt)\<close>

text \<open>
  \<open>replace(/\s+/g, ' ')\<close>: every maximal run of white space becomes one space.
\<close>

function collapseWhitespace :: "js_string \<Rightarrow> js_string" where
  "collapseWhitespace [] = []"
| "collapseWhitespace (c # cs) =
     (if isWhiteSpace c then 32 # collapseWhitespace (dropWhile isWhiteSpace cs)
      else c # collapseWhitespace cs)"
  by pat_completeness auto
termination
  by (relation "measure length") (auto simp: length_dropWhile_le less_Suc_eq_le)

text \<open>
  The four patterns have the shape \<open>/\b(?:w1|...|wn)\b/gi\<close>. Without the \<open>u\<close> flag a
  word character is an ASCII letter, digit or underscore, and \<open>i\<close> compares code units
  after upper-casing; a unit of 128 or more never folds to an ASCII unit, so against these
  ASCII words only the ASCII letters fold.
\<close>

definition isWordChar :: "nat \<Rightarrow> bool" where
  "isWordChar c = ((48 \<le> c \<and> c \<le> 57) \<or> (65 \<le> c \<and> c \<le> 90) \<or> c = 95 \<or> (97 \<le> c \<and> c \<le> 122))"

definition canonicalize :: "nat \<Rightarrow> nat" where
  "canonicalize c = (if 97 \<le> c \<and> c \<le> 122 then c - 32 else c)"

text \<open>
  \<open>\b\<close> between two neighbouring positions: exactly one side is a word character. Beyond
  either end of the string there is no character.
\<close>

definition wordBoundary :: "nat option \<Rightarrow> nat option \<Rightarrow> bool" where
  "wordBoundary prev after =
     ((case prev of None \<Rightarrow> False | Some c \<Rightarrow> isWordChar c)
      \<noteq> (case after of None \<Rightarrow> False | Some c \<Rightarrow> isWordChar c))"

fun matchLiteral :: "js_string \<Rightarrow> js_string \<Rightarrow> bool" where
  "matchLiteral [] s = True"
| "matchLiteral (a # w) [] = False"
| "matchLiteral (a # w) (c # s) = (canonicalize a = canonicalize c \<and> matchLiteral w s)"

text \<open>
  One alternative at the current position: \<open>\b\<close>, the word, \<open>\b\<close>. \<open>prev\<close> is the
  character in front of the position in the string being searched.
\<close>

definition matchAlternative :: "nat option \<Rightarrow> js_string \<Rightarrow> js_string \<Rightarrow> bool" where
  "matchAlternative prev w s =
     (wordBoundary prev (case s of [] \<Rightarrow> None | c # cs \<Rightarrow> Some c)
      \<and> matchLiteral w s
      \<and> wordBoundary (if w = [] then prev else Some (s ! (length w - 1)))
            (case drop (length w) s of [] \<Rightarrow> None | c # cs \<Rightarrow> Some c))"

text \<open>The alternatives are tried in order; the result is the length of the match.\<close>

definition matchAt :: "js_string list \<Rightarrow> nat option \<Rightarrow> js_string \<Rightarrow> nat option" where
  "matchAt ws prev s = map_option length (find (\<lambda>w. matchAlternative prev w s) ws)"

text \<open>
  \<open>s.replace(pattern, '')\<close> with a global pattern: scan from the left, drop every match
  and go on behind it; where nothing matches the character is kept. An empty match
  (none of these patterns has one) keeps the character and moves on by one.
\<close>

function replaceAll :: "js_string list \<Rightarrow> nat option \<Rightarrow> js_string \<Rightarrow> js_string" where
  "replaceAll ws prev [] = []"
| "replaceAll ws prev (c # cs) =
     (case matchAt ws prev (c # cs) of
        None \<Rightarrow> c # replaceAll ws (Some c) cs
      | Some n \<Rightarrow>
          if n = 0 then c # replaceAll ws (Some c) cs
          else replaceAll ws (Some ((c # cs) ! (n - 1))) (drop n (c # cs)))"
  by pat_completeness auto
termination
  by (relation "measure (\<lambda>(ws, prev, s). length s)") auto

definition harmfulPatterns :: "js_string list list" where
  "harmfulPatterns =
     [map utf16 [''hack'', ''exploit'', ''vulnerability'', ''bypass'', ''jailbreak''],
      map utf16 [''nsfw'', ''explicit'', ''adult'', ''sexual'', ''pornographic''],
      map utf16 [''violence'', ''gore'', ''death'', ''suicide'', ''self-harm''],
      map utf16 [''illegal'', ''drugs'', ''weapons'', ''terrorism'']]"

definition sanitizePrompt :: "js_string \<Rightarrow> js_string" where
  "sanitizePrompt p =
     (let sanitized = collapseWhitespace (trim p);
          sanitized = foldl (\<lambda>s pattern. replaceAll pattern None s) sanitized harmfulPatterns
      in trim (collapseWhitespace sanitized))"

section \<open>The ChatGPT adapter (chatGptProvider.ts, imageStyles.ts)\<close>

definition promptModifier :: "ImageStyle \<Rightarrow> string" where
  "promptModifier st =
     (case st of
        Realistic \<Rightarrow> ''photorealistic, highly detailed, professional photography, natural lighting, sharp focus''
      | Cartoon \<Rightarrow> ''cartoon style, colorful, fun, animated, bright colors, clean lines''
      | Anime \<Rightarrow> ''anime style, manga, Japanese art, detailed eyes, cel shading, vibrant colors''
      | OilPainting \<Rightarrow> ''oil painting, classical art, rich textures, visible brushstrokes, artistic, painted''
      | Watercolor \<Rightarrow> ''watercolor painting, soft colors, flowing paint, artistic, gentle textures, painted on paper''
      | Sketch \<Rightarrow> ''pencil sketch, hand drawn, artistic sketch, charcoal drawing, black and white, detailed linework''
      | DigitalArt \<Rightarrow> ''digital art, modern artwork, clean lines, vibrant colors, digital painting, contemporary''
      | Cyberpunk \<Rightarrow> ''cyberpunk style, neon lights, futuristic, dark atmosphere, high tech, sci-fi, urban''
      | Steampunk \<Rightarrow> ''steampunk style, victorian industrial, brass and copper, gears and machinery, steam-powered''
      | Minimalist \<Rightarrow> ''minimalist design, clean lines, simple, lots of white space, geometric, modern''
      | Vintage \<Rightarrow> ''vintage style, retro, nostalgic, aged look, classic design, old-fashioned''
      | PopArt \<Rightarrow> ''pop art style, bold colors, high contrast, comic book style, Andy Warhol inspired''
      | Surreal \<Rightarrow> ''surreal art, dreamlike, fantastical, impossible scenes, Salvador Dali inspired, abstract reality''
      | Photographic \<Rightarrow> ''professional photography, high resolution, perfect lighting, camera shot, photographic quality''
      | Abstract \<Rightarrow> ''abstract art, non-representational, geometric shapes, color study, modern abstract'')"

definition applyStyleToPrompt :: "js_string \<Rightarrow> ImageStyle option \<Rightarrow> js_string" where
  "applyStyleToPrompt p st =
     (case st of None \<Rightarrow> p | Some x \<Rightarrow> p @ utf16 '', '' @ utf16 (promptModifier x))"

record ChatGPTConfig =
  enabled :: bool
  apiKey :: "string option"
  model :: string
  config_timeout :: nat

text \<open>\<open>client\<close> says whether the OpenAI client object exists.\<close>

record ChatGPTProvider =
  base :: BaseImageProvider
  config :: ChatGPTConfig
  client :: bool

definition new_ChatGPTProvider :: "ChatGPTConfig \<Rightarrow> ChatGPTProvider" where
  "new_ChatGPTProvider cfg =
     \<lparr> base = new_BaseImageProvider ''chatgpt'' (config_timeout cfg),
       config = cfg,
       client = (enabled cfg \<and> (case apiKey cfg of None \<Rightarrow> False | Some k \<Rightarrow> k \<noteq> [])) \<rparr>"

text \<open>
  \<open>ChatGPTProvider.generateImage\<close>. The closure handed to the wrapper is the only place
  where the network is used (the images endpoint and the download of each image); it is
  the parameter \<open>backend\<close>, given the request, the styled prompt and the number of the
  invocation. Every \<open>Invoke\<close> event is one run of that closure.
\<close>

definition ChatGPTProvider_generateImage ::
  "ChatGPTProvider \<Rightarrow> (ImageGenerationRequest \<Rightarrow> js_string \<Rightarrow> nat \<Rightarrow> ImageGenerationResult attempt)
     \<Rightarrow> ImageGenerationRequest \<Rightarrow> (js_error + ImageGenerationResult) \<times> event list" where
  "ChatGPTProvider_generateImage this backend request =
     (if \<not> client this then
        (Inl (createError (base this) ''PROVIDER_NOT_CONFIGURED''
                ''ChatGPT provider is not configured'' Undefined), [])
      else
        (case validateRequest (base this) request of
           Inl e \<Rightarrow> (Inl e, [])
         | Inr u \<Rightarrow>
             (let sanitizedPrompt = sanitizePrompt (prompt request);
                  styledPrompt = applyStyleToPrompt sanitizedPrompt (style request)
              in executeWithRetry (base this) (backend request styledPrompt) ''generate image'')))"

section \<open>The provider manager (providerManager.ts)\<close>

datatype feature = Generation | Description | Tagging | Transparency | Logo

text \<open>
  What the manager uses of an adapter. The availability probe and \<open>generateImage\<close> are
  promises: \<open>Inl\<close> is a rejection. An adapter answers the same way for the whole of one
  call of the manager.
\<close>

record ImageProvider =
  provider_name :: string
  isAvailable :: "js_error + bool"
  supportsFeature :: "feature \<Rightarrow> bool"
  generateImage :: "ImageGenerationRequest \<Rightarrow> js_error + ImageGenerationResult"

text \<open>
  The \<open>Map\<close> of providers, in insertion order; \<open>get\<close> reads the entry of a key.
\<close>

record ProviderManager =
  providers :: "(string \<times> ImageProvider) list"

definition getProviders :: "ProviderManager \<Rightarrow> ImageProvider list" where
  "getProviders this = map snd (providers this)"

definition getProvider :: "ProviderManager \<Rightarrow> string \<Rightarrow> ImageProvider option" where
  "getProvider this nm = map_of (providers this) nm"

text \<open>A probe that rejects is caught and logged: the provider is left out.\<close>

definition getAvailableProviders :: "ProviderManager \<Rightarrow> ImageProvider list" where
  "getAvailableProviders this =
     filter (\<lambda>p. case isAvailable p of Inl e \<Rightarrow> False | Inr b \<Rightarrow> b) (getProviders this)"

definition priorities :: "feature \<Rightarrow> string list" where
  "priorities f =
     (case f of
        Generation \<Rightarrow> [''chatgpt'', ''huggingface'']
      | Description \<Rightarrow> [''chatgpt'', ''huggingface'']
      | Tagging \<Rightarrow> [''huggingface'', ''chatgpt'']
      | Logo \<Rightarrow> [''chatgpt'', ''huggingface'']
      | Transparency \<Rightarrow> [''chatgpt'', ''huggingface''])"

text \<open>The loop over the priority order: the first name that some supporting provider has.\<close>

fun firstByPriority :: "string list \<Rightarrow> ImageProvider list \<Rightarrow> ImageProvider option" where
  "firstByPriority [] supportingProviders = None"
| "firstByPriority (providerName # rest) supportingProviders =
     (case find (\<lambda>p. provider_name p = providerName) supportingProviders of
        Some p \<Rightarrow> Some p
      | None \<Rightarrow> firstByPriority rest supportingProviders)"

definition getBestProvider :: "ProviderManager \<Rightarrow> feature \<Rightarrow> ImageProvider option" where
  "getBestProvider this f =
     (let availableProviders = getAvailableProviders this;
          supportingProviders = filter (\<lambda>p. supportsFeature p f) availableProviders
      in if length supportingProviders = 0 then None
         else (case firstByPriority (priorities f) supportingProviders of
                 Some p \<Rightarrow> Some p
               | None \<Rightarrow> (case supportingProviders of [] \<Rightarrow> None | p # ps \<Rightarrow> Some p)))"

definition getFallbackProvider :: "ProviderManager \<Rightarrow> string \<Rightarrow> feature \<Rightarrow> ImageProvider option" where
  "getFallbackProvider this failedProviderName f =
     find (\<lambda>p. provider_name p \<noteq> failedProviderName \<and> supportsFeature p f)
       (getAvailableProviders this)"

text \<open>
  The first part of \<open>ProviderManager.generateImage\<close>: the provider the request goes to.
  An absent or empty \<open>preferredProvider\<close> is falsy. The probe of the preferred provider
  is awaited outside any \<open>try\<close>, so its rejection is the rejection of the whole call.
\<close>

definition selectProvider ::
  "ProviderManager \<Rightarrow> ImageGenerationRequest \<Rightarrow> string option \<Rightarrow> js_error + ImageProvider option" where
  "selectProvider this request preferredProvider =
     (case (case preferredProvider of
              None \<Rightarrow> Inr None
            | Some nm \<Rightarrow>
                if nm = [] then Inr None
                else (case getProvider this nm of
                        None \<Rightarrow> Inr None
                      | Some p \<Rightarrow>
                          (case isAvailable p of
                             Inl e \<Rightarrow> Inl e
                           | Inr b \<Rightarrow> if \<not> b then Inr None else Inr (Some p)))) of
        Inl e \<Rightarrow> Inl e
      | Inr (Some p) \<Rightarrow> Inr (Some p)
      | Inr None \<Rightarrow>
          Inr (getBestProvider this (if transparent request = Some True then Logo else Generation)))"

definition failedResult :: "ImageProvider \<Rightarrow> js_error \<Rightarrow> ImageGenerationResult" where
  "failedResult p e =
     \<lparr> success = False, images = [], provider = provider_name p, requestId = [],
       error = Some (if message e = [] then ''Image generation failed'' else message e) \<rparr>"

text \<open>
  \<open>ProviderManager.generateImage\<close>: what the promise settles with, and the names of the
  adapters whose \<open>generateImage\<close> was called, in order.
\<close>

definition ProviderManager_generateImage ::
  "ProviderManager \<Rightarrow> ImageGenerationRequest \<Rightarrow> string option
     \<Rightarrow> (js_error + ImageGenerationResult) \<times> string list" where
  "ProviderManager_generateImage this request preferredProvider =
     (case selectProvider this request preferredProvider of
        Inl e \<Rightarrow> (Inl e, [])
      | Inr None \<Rightarrow>
          (Inr \<lparr> success = False, images = [], provider = ''none'', requestId = [],
                 error = Some ''No available providers for image generation'' \<rparr>, [])
      | Inr (Some p) \<Rightarrow>
          (case generateImage p request of
             Inr r \<Rightarrow> (Inr r, [provider_name p])
           | Inl e \<Rightarrow>
               (case getFallbackProvider this (provider_name p) Generation of
                  None \<Rightarrow> (Inr (failedResult p e), [provider_name p])
                | Some fallbackProvider \<Rightarrow>
                    (case generateImage fallbackProvider request of
                       Inr r \<Rightarrow> (Inr r, [provider_name p, provider_name fallbackProvider])
                     | Inl fallbackError \<Rightarrow>
                         (Inr (failedResult p e),
                          [provider_name p, provider_name fallbackProvider])))))"

section \<open>The result cache (cache/imageCache.ts)\<close>

text \<open>
  Modelled from the spec: the file cache/imageCache.ts, which the tools import
  \<open>getCache\<close> from, is not among the sources. What follows is section 4.4 of the
  specification. A fingerprint is computed from prompt, style, dimensions, quality, count,
  format, transparent, negativePrompt and seed, and two requests that differ in one of
  them do not collide: these are all the fields of a request, so the fingerprint is taken
  to be the request. Time is a number of milliseconds handed to each operation.
\<close>

type_synonym fingerprint = ImageGenerationRequest

definition fingerprint :: "ImageGenerationRequest \<Rightarrow> fingerprint" where
  "fingerprint request = request"

record CacheEntry =
  entry_fingerprint :: fingerprint
  entry_result :: ImageGenerationResult
  createdAt :: nat
  expiresAt :: nat

text \<open>The entries are kept in the order of their creation, oldest first.\<close>

record ImageCache =
  entries :: "CacheEntry list"
  ttl :: nat
  cacheMaxSize :: nat

text \<open>An entry past \<open>expiresAt\<close> is treated as absent.\<close>

definition live :: "nat \<Rightarrow> CacheEntry \<Rightarrow> bool" where
  "live now e = (now \<le> expiresAt e)"

definition cache_get :: "ImageCache \<Rightarrow> ImageGenerationRequest \<Rightarrow> nat \<Rightarrow> ImageGenerationResult option" where
  "cache_get c request now =
     (case find (\<lambda>e. entry_fingerprint e = fingerprint request) (entries c) of
        None \<Rightarrow> None
      | Some e \<Rightarrow> if live now e then Some (entry_result e) else None)"

text \<open>
  While the number of live entries exceeds the maximum, the oldest-created entry goes.
\<close>

fun evict :: "nat \<Rightarrow> nat \<Rightarrow> CacheEntry list \<Rightarrow> CacheEntry list" where
  "evict maxEntries now [] = []"
| "evict maxEntries now (e # es) =
     (if length (filter (live now) (e # es)) > maxEntries then evict maxEntries now es
      else e # es)"

definition cache_set :: "ImageCache \<Rightarrow> ImageGenerationRequest \<Rightarrow> ImageGenerationResult \<Rightarrow> nat \<Rightarrow> ImageCache" where
  "cache_set c request r now =
     (let e = \<lparr> entry_fingerprint = fingerprint request, entry_result = r,
                createdAt = now, expiresAt = now + ttl c \<rparr>;
          es = filter (\<lambda>x. entry_fingerprint x \<noteq> fingerprint request) (entries c) @ [e]
      in c \<lparr> entries := evict (cacheMaxSize c) now es \<rparr>)"

section \<open>Notions used in the statements\<close>

text \<open>
  The events of the failed attempts \<open>a\<close> up to \<open>k - 1\<close>, each followed by its backoff
  sleep, and the value of the loop variable \<open>lastError\<close> on entry to attempt \<open>k\<close>.
\<close>

definition backoffEvents :: "BaseImageProvider \<Rightarrow> nat \<Rightarrow> nat \<Rightarrow> event list" where
  "backoffEvents this a k =
     concat (map (\<lambda>i. [Invoke i, Delay (retryDelay this * 2 ^ (i - 1))]) [a..<k])"

definition lastErrorAt ::
  "BaseImageProvider \<Rightarrow> string \<Rightarrow> (nat \<Rightarrow> 'a attempt) \<Rightarrow> nat \<Rightarrow> js_error option \<Rightarrow> nat
     \<Rightarrow> js_error option" where
  "lastErrorAt this nm operation a lastError k =
     (if k = a then lastError
      else (case race this nm (operation (k - 1)) of Inl e \<Rightarrow> Some e | Inr v \<Rightarrow> None))"

text \<open>
  Adapters, requests and registries for the scenarios of the specification. The feature
  tables are \<open>supportsFeature\<close> of ChatGPTProvider (everything but tagging), of
  HuggingFaceProvider (everything) and of BaseImageProvider for an adapter whose supported
  formats lack png (neither transparency nor logo).
\<close>

definition exampleAdapter :: "string \<Rightarrow> bool \<Rightarrow> (feature \<Rightarrow> bool) \<Rightarrow> js_error + ImageGenerationResult \<Rightarrow> ImageProvider" where
  "exampleAdapter nm available features outcome =
     \<lparr> provider_name = nm, isAvailable = Inr available, supportsFeature = features,
       generateImage = (\<lambda>request. outcome) \<rparr>"

definition exampleSuccess :: "string \<Rightarrow> ImageGenerationResult" where
  "exampleSuccess nm =
     \<lparr> success = True,
       images = [\<lparr> url = ''https://example.test/1.png'', image_format = ''png'',
                   image_dimensions = \<lparr> width = 512, height = 512 \<rparr>, image_size = 1024 \<rparr>],
       provider = nm, requestId = ''7d444840-9dc0-11d1-b245-5ffdce74fad2'', error = None \<rparr>"

definition exampleRequest :: "bool option \<Rightarrow> ImageGenerationRequest" where
  "exampleRequest t =
     \<lparr> prompt = utf16 ''a red bicycle'', style = None,
       dimensions = Some \<lparr> width = 512, height = 512 \<rparr>, quality = None, count = Some 1,
       format = None, transparent = t, negativePrompt = None, seed = None \<rparr>"

definition jpegOnlyFeatures :: "feature \<Rightarrow> bool" where
  "jpegOnlyFeatures f = (f \<noteq> Transparency \<and> f \<noteq> Logo)"

definition allFeatures :: "feature \<Rightarrow> bool" where
  "allFeatures f = True"

definition chatgptFeatures :: "feature \<Rightarrow> bool" where
  "chatgptFeatures f = (f \<noteq> Tagging)"


definition exampleRegistry :: "bool \<Rightarrow> js_error + ImageGenerationResult \<Rightarrow> ProviderManager" where
  "exampleRegistry chatgptAvailable chatgptOutcome =
     \<lparr> providers =
         [(''chatgpt'', exampleAdapter ''chatgpt'' chatgptAvailable chatgptFeatures chatgptOutcome),
          (''huggingface'', exampleAdapter ''huggingface'' True allFeatures
             (Inr (exampleSuccess ''huggingface'')))] \<rparr>"

text \<open>
  An error as an HTTP client throws it, with the response attached, and the error of a
  probe that fails.
\<close>

definition exampleRateLimit429 :: js_error where
  "exampleRateLimit429 =
     JsError ''Error'' None (Some ''RATE_LIMIT_EXCEEDED'') ''Request failed with status code 429''
       (Some 429) Undefined"


definition exampleConfig :: ChatGPTConfig where
  "exampleConfig = \<lparr> enabled = True, apiKey = Some ''sk-test'', model = ''dall-e-3'',
     config_timeout = 30000 \<rparr>"

definition exampleBackend :: "ImageGenerationRequest \<Rightarrow> js_string \<Rightarrow> nat \<Rightarrow> ImageGenerationResult attempt" where
  "exampleBackend request styledPrompt n = Returns (exampleSuccess ''chatgpt'')"

definition exampleCache :: ImageCache where
  "exampleCache = \<lparr> entries = [], ttl = 3600000, cacheMaxSize = 2 \<rparr>"

text \<open>
  Notions for the analysis of \<open>sanitizePrompt\<close>. \<open>isWordBefore\<close> is the side of \<open>\b\<close>
  that looks back. A pattern word is \<open>wordlike\<close> when it starts and ends with a word
  character, never has two neighbouring characters that are both outside the word
  characters, and contains no white space: all nineteen words of the deny-list are, the
  hyphen of self-harm included. \<open>matchThenBoundary w s\<close> says that \<open>w\<close> matches at the
  start of \<open>s\<close> and is followed by the end of the string or a character outside the word
  characters. A string is \<open>clean\<close> for a pattern when the pattern matches at none of its
  positions, \<open>collapsed\<close> when its only white space is single spaces, and \<open>trimmed\<close>
  when it neither starts nor ends with white space.
\<close>

definition isWordBefore :: "nat option \<Rightarrow> bool" where
  "isWordBefore prev = (case prev of None \<Rightarrow> False | Some c \<Rightarrow> isWordChar c)"

fun alternating :: "js_string \<Rightarrow> bool" where
  "alternating [] = True"
| "alternating [a] = isWordChar a"
| "alternating (a # b # w) = ((isWordChar a \<or> isWordChar b) \<and> alternating (b # w))"

definition wordlike :: "js_string \<Rightarrow> bool" where
  "wordlike w = (w \<noteq> [] \<and> isWordChar (hd w) \<and> alternating w \<and> (\<forall>a\<in>set w. \<not> isWhiteSpace a))"

fun matchThenBoundary :: "js_string \<Rightarrow> js_string \<Rightarrow> bool" where
  "matchThenBoundary [] [] = True"
| "matchThenBoundary [] (d # s) = (\<not> isWordChar d)"
| "matchThenBoundary (a # w) [] = False"
| "matchThenBoundary (a # w) (c # s) = (canonicalize a = canonicalize c \<and> matchThenBoundary w s)"

fun clean :: "js_string list \<Rightarrow> nat option \<Rightarrow> js_string \<Rightarrow> bool" where
  "clean ws prev [] = True"
| "clean ws prev (c # cs) = (matchAt ws prev (c # cs) = None \<and> clean ws (Some c) cs)"

fun collapsed :: "js_string \<Rightarrow> bool" where
  "collapsed [] = True"
| "collapsed [c] = (isWhiteSpace c \<longrightarrow> c = 32)"
| "collapsed (c # d # s) = ((isWhiteSpace c \<longrightarrow> c = 32 \<and> \<not> isWhiteSpace d) \<and> collapsed (d # s))"

definition trimmed :: "js_string \<Rightarrow> bool" where
  "trimmed s = (s = [] \<or> (\<not> isWhiteSpace (hd s) \<and> \<not> isWhiteSpace (last s)))"

section \<open>The resilience wrapper: one step of the loop\<close>

lemma loop_returns:
  assumes "attempt \<le> retryAttempts this" "race this nm (operation attempt) = Inr v"
  shows "executeWithRetry_loop this operation nm attempt lastError = (Inr v, [Invoke attempt])"
  using assms by (subst executeWithRetry_loop.simps) simp

lemma loop_client:
  assumes "attempt \<le> retryAttempts this" "race this nm (operation attempt) = Inl e"
    "isClientError e"
  shows "executeWithRetry_loop this operation nm attempt lastError = (Inl e, [Invoke attempt])"
  using assms by (subst executeWithRetry_loop.simps) simp

lemma loop_exhausted:
  assumes "retryAttempts this < attempt"
  shows "executeWithRetry_loop this operation nm attempt lastError =
     (Inl (createError this ''OPERATION_FAILED''
            (''Failed to '' @ nm @ '' after '' @ string_of_nat (retryAttempts this) @ '' attempts'')
            (LastError lastError)), [])"
  using assms by (subst executeWithRetry_loop.simps) simp

lemma loop_retry:
  assumes "attempt < retryAttempts this" "race this nm (operation attempt) = Inl e"
    "\<not> isClientError e"
  shows "executeWithRetry_loop this operation nm attempt lastError =
     (case executeWithRetry_loop this operation nm (attempt + 1) (Some e) of
        (r, evs) \<Rightarrow> (r, Invoke attempt # Delay (retryDelay this * 2 ^ (attempt - 1)) # evs))"
  using assms by (subst executeWithRetry_loop.simps) simp

lemma loop_final:
  assumes "attempt = retryAttempts this" "race this nm (operation attempt) = Inl e"
    "\<not> isClientError e"
  shows "executeWithRetry_loop this operation nm attempt lastError =
     (Inl (createError this ''OPERATION_FAILED''
            (''Failed to '' @ nm @ '' after '' @ string_of_nat (retryAttempts this) @ '' attempts'')
            (LastError (Some e))), [Invoke attempt])"
  using assms
  by (subst executeWithRetry_loop.simps) (simp add: loop_exhausted)

lemma backoffEvents_step:
  "a < k \<Longrightarrow> backoffEvents this a k =
     Invoke a # Delay (retryDelay this * 2 ^ (a - 1)) # backoffEvents this (Suc a) k"
  by (simp add: backoffEvents_def upt_conv_Cons)

lemma loop_prefix:
  assumes "\<forall>i. a \<le> i \<and> i < k \<longrightarrow> (\<exists>e. race this nm (operation i) = Inl e \<and> \<not> isClientError e)"
    and "a \<le> k" and "k \<le> retryAttempts this"
  shows "executeWithRetry_loop this operation nm a lastError =
     (case executeWithRetry_loop this operation nm k (lastErrorAt this nm operation a lastError k) of
        (r, evs) \<Rightarrow> (r, backoffEvents this a k @ evs))"
  using assms
proof (induction "k - a" arbitrary: a lastError)
  case 0
  then have "k = a" by simp
  then show ?case by (simp add: backoffEvents_def lastErrorAt_def split: prod.splits)
next
  case (Suc d)
  then have lt: "a < k" by simp
  with Suc.prems obtain e where e: "race this nm (operation a) = Inl e" "\<not> isClientError e"
    by blast
  from lt Suc.prems have an: "a < retryAttempts this" by simp
  have step: "executeWithRetry_loop this operation nm a lastError =
     (case executeWithRetry_loop this operation nm (a + 1) (Some e) of
        (r, evs) \<Rightarrow> (r, Invoke a # Delay (retryDelay this * 2 ^ (a - 1)) # evs))"
    using an e by (rule loop_retry)
  have d: "d = k - Suc a" using Suc.hyps by simp
  have ih: "executeWithRetry_loop this operation nm (Suc a) (Some e) =
     (case executeWithRetry_loop this operation nm k (lastErrorAt this nm operation (Suc a) (Some e) k) of
        (r, evs) \<Rightarrow> (r, backoffEvents this (Suc a) k @ evs))"
    using Suc.hyps(1) [OF d] Suc.prems lt by simp
  have la: "lastErrorAt this nm operation (Suc a) (Some e) k = lastErrorAt this nm operation a lastError k"
    using lt e by (auto simp: lastErrorAt_def)
  show ?case
    using step ih la lt by (simp add: backoffEvents_step split: prod.splits)
qed

lemma loop_invokes:
  assumes "attempt \<le> retryAttempts this"
  shows "\<exists>r evs. executeWithRetry_loop this operation nm attempt lastError = (r, Invoke attempt # evs)"
  using assms
  by (subst executeWithRetry_loop.simps) (auto split: sum.splits prod.splits)

lemma invocations_backoff:
  "length (filter is_Invoke (concat (map (\<lambda>i. [Invoke i, Delay (g i)]) xs))) = length xs"
  by (induction xs) auto

lemma delays_backoff:
  "concat (map (\<lambda>ev. case ev of Invoke n \<Rightarrow> [] | Delay ms \<Rightarrow> [ms])
     (concat (map (\<lambda>i. [Invoke i, Delay (g i)]) xs))) = map g xs"
  by (induction xs) auto

section \<open>Claims about the resilience wrapper\<close>

text \<open>
  Claim C1, in the form that holds of the code. The wrapper decides with
  \<open>isClientError\<close> alone. When the attempts before attempt \<open>k\<close> failed with errors
  that are not client errors and attempt \<open>k\<close> fails with a client error (an HTTP status from 400 to 499, or one of the codes
  INVALID_REQUEST, AUTHENTICATION_FAILED, PERMISSION_DENIED, QUOTA_EXCEEDED,
  CONTENT_POLICY_VIOLATION), the wrapper rejects with that very error and attempt \<open>k\<close> is
  the last invocation. When attempt \<open>k\<close> fails with any other error and attempts remain,
  the wrapper sleeps and invokes the operation again, whatever the code of the error.
\<close>

theorem client_error_stops_retry:
  assumes "\<forall>i. 1 \<le> i \<and> i < k \<longrightarrow> (\<exists>e'. race this nm (operation i) = Inl e' \<and> \<not> isClientError e')"
    and "1 \<le> k" and "k \<le> retryAttempts this"
    and "race this nm (operation k) = Inl e"
  shows "(isClientError e \<longrightarrow>
            executeWithRetry this operation nm = (Inl e, backoffEvents this 1 k @ [Invoke k]))
       \<and> (\<not> isClientError e \<and> k < retryAttempts this \<longrightarrow>
            (\<exists>r evs. executeWithRetry this operation nm =
               (r, backoffEvents this 1 k @
                   Invoke k # Delay (retryDelay this * 2 ^ (k - 1)) # Invoke (k + 1) # evs)))"
proof -
  have pre: "executeWithRetry this operation nm =
     (case executeWithRetry_loop this operation nm k (lastErrorAt this nm operation 1 None k) of
        (r, evs) \<Rightarrow> (r, backoffEvents this 1 k @ evs))"
    unfolding executeWithRetry_def using assms(1-3) by (rule loop_prefix)
  have a: "executeWithRetry this operation nm = (Inl e, backoffEvents this 1 k @ [Invoke k])"
    if "isClientError e"
    using pre loop_client [where operation = operation, OF assms(3) assms(4) that] by simp
  have b: "\<exists>r evs. executeWithRetry this operation nm =
               (r, backoffEvents this 1 k @
                   Invoke k # Delay (retryDelay this * 2 ^ (k - 1)) # Invoke (k + 1) # evs)"
    if nc: "\<not> isClientError e" and lt: "k < retryAttempts this"
  proof -
    from lt have "k + 1 \<le> retryAttempts this" by simp
    from loop_invokes [OF this] obtain r evs where
      "executeWithRetry_loop this operation nm (k + 1) (Some e) = (r, Invoke (k + 1) # evs)"
      by blast
    with pre loop_retry [where operation = operation, OF lt assms(4) nc] show ?thesis by simp
  qed
  from a b show ?thesis by blast
qed

text \<open>
  An instance: the first attempt times out, the second is refused with
  AUTHENTICATION_FAILED, and there is no third.
\<close>

theorem client_error_stops_retry_witness:
  "executeWithRetry (new_BaseImageProvider ''huggingface'' 30000)
     (\<lambda>n. if n = 1 then Hangs
          else Throws (createError (new_BaseImageProvider ''huggingface'' 30000)
                 ''AUTHENTICATION_FAILED'' ''Invalid HuggingFace API key'' Undefined))
     ''generate image''
   = (Inl (createError (new_BaseImageProvider ''huggingface'' 30000)
                 ''AUTHENTICATION_FAILED'' ''Invalid HuggingFace API key'' Undefined),
      [Invoke 1, Delay 1000, Invoke 2])
   \<and> (\<exists>r evs. executeWithRetry (new_BaseImageProvider ''huggingface'' 30000)
          (alwaysThrows (createError (new_BaseImageProvider ''huggingface'' 30000)
                 ''API_ERROR'' ''HuggingFace API error: 500'' Undefined))
          ''generate image''
        = (r :: js_error + ImageGenerationResult, Invoke 1 # Delay 1000 # Invoke 2 # evs))"
proof -
  let ?prov = "new_BaseImageProvider ''huggingface'' 30000"
  let ?auth = "createError ?prov ''AUTHENTICATION_FAILED'' ''Invalid HuggingFace API key'' Undefined"
  let ?api = "createError ?prov ''API_ERROR'' ''HuggingFace API error: 500'' Undefined"
  from client_error_stops_retry [of 2 ?prov "''generate image''"
     "\<lambda>n. if n = 1 then Hangs else Throws ?auth" ?auth]
  have a: "executeWithRetry ?prov (\<lambda>n. if n = 1 then Hangs else Throws ?auth) ''generate image''
      = (Inl ?auth, [Invoke 1, Delay 1000, Invoke 2])"
    by (simp add: race_def createTimeoutPromise_def isClientError_def createError_def
        new_BaseImageProvider_def nonRetryableErrorCodes_def backoffEvents_def upt_rec
        numeral_2_eq_2 [symmetric])
  from client_error_stops_retry [of 1 ?prov "''generate image''" "alwaysThrows ?api" ?api]
  have b: "\<exists>r evs. executeWithRetry ?prov (alwaysThrows ?api) ''generate image''
      = (r :: js_error + ImageGenerationResult, Invoke 1 # Delay 1000 # Invoke 2 # evs)"
    by (simp add: race_def alwaysThrows_def isClientError_def createError_def
        new_BaseImageProvider_def nonRetryableErrorCodes_def backoffEvents_def
        numeral_2_eq_2 [symmetric])
  from a b show ?thesis by blast
qed

text \<open>
  Claim C1 as stated fails: GENERATION_FAILED is outside the four retryable codes, and an
  operation that always fails with it is invoked three times, with both backoff sleeps.
\<close>

theorem retry_policy_counterexample:
  "code (createError (new_BaseImageProvider ''chatgpt'' 30000) ''GENERATION_FAILED''
           ''Image generation failed: socket hang up'' Undefined) = Some ''GENERATION_FAILED''
   \<and> \<not> isRetryableByCode ''GENERATION_FAILED''
   \<and> snd (executeWithRetry (new_BaseImageProvider ''chatgpt'' 30000)
        (alwaysThrows (createError (new_BaseImageProvider ''chatgpt'' 30000) ''GENERATION_FAILED''
           ''Image generation failed: socket hang up'' Undefined))
        ''generate image'')
     = [Invoke 1, Delay 1000, Invoke 2, Delay 2000, Invoke 3]"
  by (simp add: executeWithRetry_def executeWithRetry_loop.simps race_def alwaysThrows_def
      isClientError_def createError_def new_BaseImageProvider_def isRetryableByCode_def
      retryableCodes_def nonRetryableErrorCodes_def)

text \<open>
  Claim C2, in the form that holds of the code. An operation whose every attempt fails
  with a retryable error (a code among TIMEOUT, SERVICE_UNAVAILABLE, NETWORK_ERROR,
  RATE_LIMIT_EXCEEDED) that carries no HTTP response status from 400 to 499 is invoked
  exactly \<open>retryAttempts\<close> times; after failed attempt \<open>n\<close>, for every \<open>n\<close> before the
  last, the wrapper sleeps \<open>retryDelay * 2 ^ (n - 1)\<close> milliseconds; and the wrapper
  rejects with OPERATION_FAILED whose details hold the error of the last attempt. The
  constructor sets \<open>retryAttempts = 3\<close> and \<open>retryDelay = 1000\<close>. The errors made by
  \<open>createError\<close>, the timeout of the race among them, carry no response.
\<close>

theorem retryable_failure_exhausts_attempts:
  assumes "\<forall>i. \<exists>e c. race this nm (operation i) = Inl e \<and> code e = Some c \<and> isRetryableByCode c
             \<and> \<not> (\<exists>s. response_status e = Some s \<and> 400 \<le> s \<and> s < 500)"
    and "0 < retryAttempts this"
  shows "\<exists>e evs. race this nm (operation (retryAttempts this)) = Inl e
      \<and> executeWithRetry this operation nm =
          (Inl (createError this ''OPERATION_FAILED''
                  (''Failed to '' @ nm @ '' after '' @ string_of_nat (retryAttempts this) @ '' attempts'')
                  (LastError (Some e))), evs)
      \<and> evs = concat (map (\<lambda>n. [Invoke n, Delay (retryDelay this * 2 ^ (n - 1))])
                   [1..<retryAttempts this]) @ [Invoke (retryAttempts this)]
      \<and> invocations evs = retryAttempts this
      \<and> delays evs = map (\<lambda>n. retryDelay this * 2 ^ (n - 1)) [1..<retryAttempts this]"
proof -
  have nc: "\<exists>e. race this nm (operation i) = Inl e \<and> \<not> isClientError e" for i
  proof -
    from assms(1) obtain e c where e: "race this nm (operation i) = Inl e" "code e = Some c"
      "isRetryableByCode c" "\<not> (\<exists>s. response_status e = Some s \<and> 400 \<le> s \<and> s < 500)"
      by blast
    from e(3) have "c \<notin> set nonRetryableErrorCodes"
      by (auto simp: isRetryableByCode_def retryableCodes_def nonRetryableErrorCodes_def)
    with e(2,4) have "\<not> isClientError e"
      by (auto simp: isClientError_def split: option.splits)
    with e(1) show ?thesis by blast
  qed
  let ?n = "retryAttempts this"
  let ?evs = "backoffEvents this 1 ?n @ [Invoke ?n]"
  from nc obtain e where e: "race this nm (operation ?n) = Inl e" "\<not> isClientError e" by blast
  have "executeWithRetry this operation nm =
     (case executeWithRetry_loop this operation nm ?n (lastErrorAt this nm operation 1 None ?n) of
        (r, evs) \<Rightarrow> (r, backoffEvents this 1 ?n @ evs))"
    unfolding executeWithRetry_def using nc assms(2) by (intro loop_prefix) auto
  with loop_final [where operation = operation, OF refl e] have "executeWithRetry this operation nm =
          (Inl (createError this ''OPERATION_FAILED''
                  (''Failed to '' @ nm @ '' after '' @ string_of_nat ?n @ '' attempts'')
                  (LastError (Some e))), ?evs)"
    by simp
  moreover have "invocations ?evs = ?n"
    using assms(2) by (simp add: invocations_def backoffEvents_def invocations_backoff)
  moreover have "delays ?evs = map (\<lambda>n. retryDelay this * 2 ^ (n - 1)) [1..<?n]"
    by (simp add: delays_def backoffEvents_def delays_backoff)
  ultimately show ?thesis using e(1) unfolding backoffEvents_def by blast
qed

theorem retryable_failure_exhausts_attempts_witness:
  "executeWithRetry (new_BaseImageProvider ''chatgpt'' 30000)
     (alwaysThrows (createError (new_BaseImageProvider ''chatgpt'' 30000) ''RATE_LIMIT_EXCEEDED''
           ''API rate limit exceeded'' Undefined)) ''generate image''
   = (Inl (createError (new_BaseImageProvider ''chatgpt'' 30000) ''OPERATION_FAILED''
             ''Failed to generate image after 3 attempts''
             (LastError (Some (createError (new_BaseImageProvider ''chatgpt'' 30000)
                ''RATE_LIMIT_EXCEEDED'' ''API rate limit exceeded'' Undefined)))),
      [Invoke 1, Delay 1000, Invoke 2, Delay 2000, Invoke 3])"
  using retryable_failure_exhausts_attempts [of "new_BaseImageProvider ''chatgpt'' 30000"
      "''generate image''"
      "alwaysThrows (createError (new_BaseImageProvider ''chatgpt'' 30000) ''RATE_LIMIT_EXCEEDED''
           ''API rate limit exceeded'' Undefined)"]
  by (auto simp: race_def alwaysThrows_def createError_def new_BaseImageProvider_def
      isRetryableByCode_def retryableCodes_def string_of_nat.simps upt_rec
      numeral_2_eq_2 [symmetric])

text \<open>
  Claim C2 as stated fails: \<open>isClientError\<close> looks at the response status before any
  code, so an operation that always fails with code RATE_LIMIT_EXCEEDED on an error whose
  response has status 429 is invoked once and its error rethrown.
\<close>

theorem retryable_with_status_counterexample:
  "code exampleRateLimit429 = Some ''RATE_LIMIT_EXCEEDED''
   \<and> isRetryableByCode ''RATE_LIMIT_EXCEEDED''
   \<and> executeWithRetry (new_BaseImageProvider ''huggingface'' 30000)
        (alwaysThrows exampleRateLimit429) ''generate image''
     = (Inl exampleRateLimit429 :: js_error + ImageGenerationResult, [Invoke 1])"
  by (simp add: executeWithRetry_def executeWithRetry_loop.simps race_def alwaysThrows_def
      isClientError_def exampleRateLimit429_def new_BaseImageProvider_def isRetryableByCode_def
      retryableCodes_def)

text \<open>
  Claim C8. An operation that fails with code INVALID_REQUEST is invoked once: the wrapper
  rejects with the same error and neither sleeps nor retries.
\<close>

theorem invalid_request_invoked_once:
  assumes "0 < retryAttempts this"
    and "operation 1 = Throws e" and "code e = Some ''INVALID_REQUEST''"
  shows "executeWithRetry this operation nm = (Inl e, [Invoke 1])"
proof -
  have "isClientError e"
    using assms(3) by (simp add: isClientError_def nonRetryableErrorCodes_def)
  moreover have "race this nm (operation 1) = Inl e"
    using assms(2) by (simp add: race_def)
  moreover have "1 \<le> retryAttempts this" using assms(1) by simp
  ultimately show ?thesis
    unfolding executeWithRetry_def by (intro loop_client)
qed

theorem invalid_request_invoked_once_witness:
  "executeWithRetry (new_BaseImageProvider ''chatgpt'' 30000)
     (alwaysThrows (createError (new_BaseImageProvider ''chatgpt'' 30000) ''INVALID_REQUEST''
           ''Invalid request'' Undefined)) ''generate image''
   = (Inl (createError (new_BaseImageProvider ''chatgpt'' 30000) ''INVALID_REQUEST''
           ''Invalid request'' Undefined), [Invoke 1])"
  using invalid_request_invoked_once [of "new_BaseImageProvider ''chatgpt'' 30000"
     "alwaysThrows (createError (new_BaseImageProvider ''chatgpt'' 30000) ''INVALID_REQUEST''
           ''Invalid request'' Undefined)"
     "createError (new_BaseImageProvider ''chatgpt'' 30000) ''INVALID_REQUEST''
           ''Invalid request'' Undefined" "''generate image''"]
  by (simp add: alwaysThrows_def createError_def new_BaseImageProvider_def)

section \<open>Claims about the provider manager\<close>

lemma available_iff:
  "p \<in> set (getAvailableProviders pm) \<longleftrightarrow> p \<in> set (getProviders pm) \<and> isAvailable p = Inr True"
  by (auto simp: getAvailableProviders_def split: sum.splits)

lemma find_Some_mem: "find P xs = Some x \<Longrightarrow> x \<in> set xs \<and> P x"
  by (auto simp: find_Some_iff)

lemma firstByPriority_Some:
  "firstByPriority ns sps = Some p \<Longrightarrow>
     \<exists>pre post. ns = pre @ provider_name p # post
        \<and> (\<forall>q\<in>set sps. provider_name q \<notin> set pre)
        \<and> find (\<lambda>q. provider_name q = provider_name p) sps = Some p"
proof (induction ns)
  case Nil
  then show ?case by simp
next
  case (Cons n ns)
  show ?case
  proof (cases "find (\<lambda>q. provider_name q = n) sps")
    case None
    with Cons.prems have "firstByPriority ns sps = Some p" by simp
    from Cons.IH [OF this] obtain pre post where
      pp: "ns = pre @ provider_name p # post" "\<forall>q\<in>set sps. provider_name q \<notin> set pre"
      "find (\<lambda>q. provider_name q = provider_name p) sps = Some p" by blast
    from None have "\<forall>q\<in>set sps. provider_name q \<noteq> n" by (simp add: find_None_iff)
    with pp have "n # ns = (n # pre) @ provider_name p # post
        \<and> (\<forall>q\<in>set sps. provider_name q \<notin> set (n # pre))
        \<and> find (\<lambda>q. provider_name q = provider_name p) sps = Some p" by auto
    then show ?thesis by blast
  next
    case (Some q)
    with Cons.prems have qp: "q = p" by simp
    from Some have "provider_name q = n" by (auto simp: find_Some_iff)
    with Some qp have "n # ns = [] @ provider_name p # ns
        \<and> (\<forall>q\<in>set sps. provider_name q \<notin> set [])
        \<and> find (\<lambda>q. provider_name q = provider_name p) sps = Some p" by auto
    then show ?thesis by blast
  qed
qed

lemma firstByPriority_None:
  "firstByPriority ns sps = None \<longleftrightarrow> (\<forall>q\<in>set sps. provider_name q \<notin> set ns)"
  by (induction ns) (auto simp: find_None_iff dest: find_Some_mem split: option.splits)

text \<open>
  Claim C5. \<open>getBestProvider\<close> answers null exactly when no registered provider is both
  available and supports the feature. A provider it returns is registered, reports
  available and supports the feature. If some such provider bears a name of the priority
  table of the feature, the result is the first provider with the earliest such name in
  the table; otherwise it is the first supporting provider.
\<close>

theorem getBestProvider_selection:
  "(getBestProvider pm f = None \<longleftrightarrow>
        \<not> (\<exists>p\<in>set (getProviders pm). isAvailable p = Inr True \<and> supportsFeature p f))
   \<and> (\<forall>p. getBestProvider pm f = Some p \<longrightarrow>
        p \<in> set (getProviders pm) \<and> isAvailable p = Inr True \<and> supportsFeature p f
        \<and> (let supporting = filter (\<lambda>q. supportsFeature q f) (getAvailableProviders pm) in
             if \<exists>q\<in>set supporting. provider_name q \<in> set (priorities f)
             then \<exists>pre post. priorities f = pre @ provider_name p # post
                    \<and> (\<forall>q\<in>set supporting. provider_name q \<notin> set pre)
                    \<and> find (\<lambda>q. provider_name q = provider_name p) supporting = Some p
             else p = hd supporting))"
proof -
  define supporting where "supporting = filter (\<lambda>q. supportsFeature q f) (getAvailableProviders pm)"
  have mem: "q \<in> set supporting \<longleftrightarrow>
      q \<in> set (getProviders pm) \<and> isAvailable q = Inr True \<and> supportsFeature q f" for q
    by (auto simp: supporting_def available_iff)
  have best: "getBestProvider pm f =
      (if length supporting = 0 then None
       else (case firstByPriority (priorities f) supporting of
               Some p \<Rightarrow> Some p
             | None \<Rightarrow> (case supporting of [] \<Rightarrow> None | p # ps \<Rightarrow> Some p)))"
    unfolding getBestProvider_def supporting_def Let_def by (rule refl)
  have none: "getBestProvider pm f = None \<longleftrightarrow> supporting = []"
    by (auto simp: best split: option.splits list.splits)
  have a: "getBestProvider pm f = None \<longleftrightarrow>
        \<not> (\<exists>p\<in>set (getProviders pm). isAvailable p = Inr True \<and> supportsFeature p f)"
  proof -
    have "supporting = [] \<longleftrightarrow> (\<forall>q. q \<notin> set supporting)" by auto
    then show ?thesis using none mem by auto
  qed
  have b: "p \<in> set supporting
        \<and> (if \<exists>q\<in>set supporting. provider_name q \<in> set (priorities f)
             then \<exists>pre post. priorities f = pre @ provider_name p # post
                    \<and> (\<forall>q\<in>set supporting. provider_name q \<notin> set pre)
                    \<and> find (\<lambda>q. provider_name q = provider_name p) supporting = Some p
             else p = hd supporting)"
    if some: "getBestProvider pm f = Some p" for p
  proof (cases "firstByPriority (priorities f) supporting")
    case None
    then have no: "\<not> (\<exists>q\<in>set supporting. provider_name q \<in> set (priorities f))"
      by (simp add: firstByPriority_None)
    from some None have "supporting \<noteq> [] \<and> p = hd supporting"
      by (auto simp: best split: if_splits list.splits)
    with no show ?thesis by auto
  next
    case (Some q)
    with some have qp: "q = p" by (auto simp: best split: if_splits)
    from firstByPriority_Some [OF Some] qp obtain pre post where
      pp: "priorities f = pre @ provider_name p # post"
        "\<forall>q\<in>set supporting. provider_name q \<notin> set pre"
        "find (\<lambda>q. provider_name q = provider_name p) supporting = Some p" by blast
    from find_Some_mem [OF pp(3)] have pin: "p \<in> set supporting" by simp
    from pp(1) have "provider_name p \<in> set (priorities f)" by simp
    with pin have "\<exists>q\<in>set supporting. provider_name q \<in> set (priorities f)" by blast
    with pp pin show ?thesis by auto
  qed
  show ?thesis
    using a b mem unfolding supporting_def [symmetric] Let_def by blast
qed

theorem getBestProvider_selection_witness:
  "getBestProvider (exampleRegistry False (Inr (exampleSuccess ''chatgpt''))) Generation
     = Some (exampleAdapter ''huggingface'' True allFeatures (Inr (exampleSuccess ''huggingface'')))
   \<and> isAvailable (exampleAdapter ''huggingface'' True allFeatures (Inr (exampleSuccess ''huggingface'')))
       = Inr True
   \<and> supportsFeature (exampleAdapter ''huggingface'' True allFeatures
        (Inr (exampleSuccess ''huggingface''))) Generation"
proof -
  let ?pm = "exampleRegistry False (Inr (exampleSuccess ''chatgpt''))"
  let ?hf = "exampleAdapter ''huggingface'' True allFeatures (Inr (exampleSuccess ''huggingface''))"
  have best: "getBestProvider ?pm Generation = Some ?hf"
    by (simp add: getBestProvider_def getAvailableProviders_def getProviders_def priorities_def
        exampleRegistry_def exampleAdapter_def chatgptFeatures_def allFeatures_def)
  from getBestProvider_selection [of ?pm Generation, THEN conjunct2, rule_format, OF best]
  have "isAvailable ?hf = Inr True \<and> supportsFeature ?hf Generation" by blast
  with best show ?thesis by blast
qed

lemma find_filter: "find P (filter Q xs) = find (\<lambda>x. Q x \<and> P x) xs"
  by (induction xs) auto

lemma available_case: "(case isAvailable q of Inl e \<Rightarrow> False | Inr b \<Rightarrow> b) = (isAvailable q = Inr True)"
  by (cases "isAvailable q") auto

lemma getFallbackProvider_find:
  "getFallbackProvider pm n f =
     find (\<lambda>q. isAvailable q = Inr True \<and> provider_name q \<noteq> n \<and> supportsFeature q f)
       (getProviders pm)"
  by (simp add: getFallbackProvider_def getAvailableProviders_def find_filter available_case)

lemma getProvider_mem: "getProvider pm nm = Some p \<Longrightarrow> p \<in> set (getProviders pm)"
  by (auto simp: getProvider_def getProviders_def dest!: map_of_SomeD intro: rev_image_eqI)





lemma getBestProvider_available:
  assumes "getBestProvider pm f = Some p"
  shows "p \<in> set (getProviders pm) \<and> isAvailable p = Inr True"
proof -
  let ?supporting = "filter (\<lambda>q. supportsFeature q f) (getAvailableProviders pm)"
  have "p \<in> set ?supporting"
  proof (cases "firstByPriority (priorities f) ?supporting")
    case None
    with assms have "?supporting \<noteq> [] \<and> p = hd ?supporting"
      by (auto simp: getBestProvider_def Let_def split: if_splits list.splits)
    then show ?thesis using hd_in_set by blast
  next
    case (Some q)
    with assms have "q = p" by (auto simp: getBestProvider_def Let_def split: if_splits)
    with firstByPriority_Some [OF Some] show ?thesis by (auto dest: find_Some_mem)
  qed
  then show ?thesis by (simp add: available_iff)
qed

lemma selectProvider_available:
  assumes "selectProvider pm req pref = Inr (Some p)"
  shows "p \<in> set (getProviders pm) \<and> isAvailable p = Inr True"
proof -
  let ?f = "if transparent req = Some True then Logo else Generation"
  from assms have "(\<exists>nm. getProvider pm nm = Some p \<and> isAvailable p = Inr True)
      \<or> getBestProvider pm ?f = Some p"
    by (auto simp: selectProvider_def split: option.splits if_splits sum.splits)
  then show ?thesis
    by (auto dest: getProvider_mem getBestProvider_available)
qed

lemma invoked_available:
  "\<forall>n\<in>set (snd (ProviderManager_generateImage pm req pref)).
     \<exists>p\<in>set (getProviders pm). provider_name p = n \<and> isAvailable p = Inr True"
proof (cases "selectProvider pm req pref")
  case (Inl e)
  then show ?thesis by (simp add: ProviderManager_generateImage_def)
next
  case (Inr x)
  show ?thesis
  proof (cases x)
    case None
    with Inr show ?thesis by (simp add: ProviderManager_generateImage_def)
  next
    case (Some p)
    with Inr have p: "p \<in> set (getProviders pm) \<and> isAvailable p = Inr True"
      using selectProvider_available by blast
    have fb: "q \<in> set (getProviders pm) \<and> isAvailable q = Inr True"
      if "getFallbackProvider pm (provider_name p) Generation = Some q" for q
      using that by (auto simp: getFallbackProvider_find dest: find_Some_mem)
    from Inr Some p fb show ?thesis
      by (auto simp: ProviderManager_generateImage_def split: sum.splits option.splits)
  qed
qed

text \<open>
  Claim C4, in the form that holds of the code. A preferred provider that is registered
  and reports available is the provider selected and the first adapter invoked, whether or
  not it supports the capability the request needs. When the preferred name is not
  registered, or its provider reports unavailable, the provider selected is the
  priority-based choice of \<open>getBestProvider\<close>, for logo when the request is transparent
  and for generation otherwise: that provider is the first adapter invoked, none is invoked
  when there is none, and the call behaves exactly as the call without a preferred
  provider. In every case, an adapter that is invoked is registered and reports available.
\<close>

theorem preferred_provider_when_available:
  assumes "nm \<noteq> []"
  shows "(\<forall>p. getProvider pm nm = Some p \<and> isAvailable p = Inr True \<longrightarrow>
            selectProvider pm req (Some nm) = Inr (Some p)
            \<and> (\<exists>rest. snd (ProviderManager_generateImage pm req (Some nm)) = provider_name p # rest))
       \<and> (getProvider pm nm = None \<or> (\<exists>p. getProvider pm nm = Some p \<and> isAvailable p = Inr False) \<longrightarrow>
            selectProvider pm req (Some nm)
              = Inr (getBestProvider pm (if transparent req = Some True then Logo else Generation))
            \<and> (case getBestProvider pm (if transparent req = Some True then Logo else Generation) of
                  None \<Rightarrow> snd (ProviderManager_generateImage pm req (Some nm)) = []
                | Some q \<Rightarrow>
                    (\<exists>rest. snd (ProviderManager_generateImage pm req (Some nm))
                       = provider_name q # rest))
            \<and> ProviderManager_generateImage pm req (Some nm)
                = ProviderManager_generateImage pm req None)
       \<and> (\<forall>n\<in>set (snd (ProviderManager_generateImage pm req (Some nm))).
            \<exists>p\<in>set (getProviders pm). provider_name p = n \<and> isAvailable p = Inr True)"
proof -
  let ?f = "if transparent req = Some True then Logo else Generation"
  have first: "\<exists>rest. snd (ProviderManager_generateImage pm req pref) = provider_name p # rest"
    if "selectProvider pm req pref = Inr (Some p)" for p pref
    using that
    by (auto simp: ProviderManager_generateImage_def split: sum.splits option.splits)
  have a: "selectProvider pm req (Some nm) = Inr (Some p)
      \<and> (\<exists>rest. snd (ProviderManager_generateImage pm req (Some nm)) = provider_name p # rest)"
    if "getProvider pm nm = Some p" "isAvailable p = Inr True" for p
  proof -
    from that assms have "selectProvider pm req (Some nm) = Inr (Some p)"
      by (simp add: selectProvider_def)
    with first show ?thesis by blast
  qed
  have b: "selectProvider pm req (Some nm) = Inr (getBestProvider pm ?f)
      \<and> (case getBestProvider pm ?f of
            None \<Rightarrow> snd (ProviderManager_generateImage pm req (Some nm)) = []
          | Some q \<Rightarrow>
              (\<exists>rest. snd (ProviderManager_generateImage pm req (Some nm)) = provider_name q # rest))
      \<and> ProviderManager_generateImage pm req (Some nm) = ProviderManager_generateImage pm req None"
    if "getProvider pm nm = None \<or> (\<exists>p. getProvider pm nm = Some p \<and> isAvailable p = Inr False)"
  proof -
    from that assms have sel: "selectProvider pm req (Some nm) = Inr (getBestProvider pm ?f)"
      by (auto simp: selectProvider_def)
    have none: "selectProvider pm req None = Inr (getBestProvider pm ?f)"
      by (simp add: selectProvider_def)
    have "case getBestProvider pm ?f of
            None \<Rightarrow> snd (ProviderManager_generateImage pm req (Some nm)) = []
          | Some q \<Rightarrow>
              (\<exists>rest. snd (ProviderManager_generateImage pm req (Some nm)) = provider_name q # rest)"
    proof (cases "getBestProvider pm ?f")
      case None
      with sel show ?thesis by (simp add: ProviderManager_generateImage_def)
    next
      case (Some q)
      with sel first [of "Some nm" q] show ?thesis by simp
    qed
    moreover from sel none
    have "ProviderManager_generateImage pm req (Some nm) = ProviderManager_generateImage pm req None"
      by (simp add: ProviderManager_generateImage_def)
    ultimately show ?thesis using sel by blast
  qed
  from a b invoked_available [of pm req "Some nm"] show ?thesis by blast
qed

text \<open>
  Instances: huggingface, preferred and available, is invoked first; chatgpt, preferred
  but unavailable, gives way to the priority-based choice, which for the transparent
  request is the choice for logo, here huggingface.
\<close>

theorem preferred_provider_when_available_witness:
  "snd (ProviderManager_generateImage (exampleRegistry True (Inr (exampleSuccess ''chatgpt'')))
      (exampleRequest None) (Some ''huggingface'')) \<noteq> []
   \<and> hd (snd (ProviderManager_generateImage (exampleRegistry True (Inr (exampleSuccess ''chatgpt'')))
      (exampleRequest None) (Some ''huggingface''))) = ''huggingface''
   \<and> ProviderManager_generateImage (exampleRegistry False (Inr (exampleSuccess ''chatgpt'')))
      (exampleRequest None) (Some ''chatgpt'')
     = ProviderManager_generateImage (exampleRegistry False (Inr (exampleSuccess ''chatgpt'')))
      (exampleRequest None) None
   \<and> selectProvider (exampleRegistry False (Inr (exampleSuccess ''chatgpt'')))
        (exampleRequest (Some True)) (Some ''chatgpt'')
     = Inr (getBestProvider (exampleRegistry False (Inr (exampleSuccess ''chatgpt''))) Logo)
   \<and> hd (snd (ProviderManager_generateImage (exampleRegistry False (Inr (exampleSuccess ''chatgpt'')))
        (exampleRequest (Some True)) (Some ''chatgpt''))) = ''huggingface''"
proof -
  have ne: "''huggingface'' \<noteq> []" "''chatgpt'' \<noteq> []" by simp_all
  from preferred_provider_when_available [OF ne(1),
      of "exampleRegistry True (Inr (exampleSuccess ''chatgpt''))" "exampleRequest None"]
  have a: "\<exists>rest. snd (ProviderManager_generateImage (exampleRegistry True (Inr (exampleSuccess ''chatgpt'')))
      (exampleRequest None) (Some ''huggingface'')) = ''huggingface'' # rest"
    by (simp add: getProvider_def exampleRegistry_def exampleAdapter_def chatgptFeatures_def allFeatures_def)
  from preferred_provider_when_available [OF ne(2),
      of "exampleRegistry False (Inr (exampleSuccess ''chatgpt''))" "exampleRequest None"]
  have b: "ProviderManager_generateImage (exampleRegistry False (Inr (exampleSuccess ''chatgpt'')))
      (exampleRequest None) (Some ''chatgpt'')
     = ProviderManager_generateImage (exampleRegistry False (Inr (exampleSuccess ''chatgpt'')))
      (exampleRequest None) None"
    by (simp add: getProvider_def exampleRegistry_def exampleAdapter_def chatgptFeatures_def allFeatures_def)
  have best: "getBestProvider (exampleRegistry False (Inr (exampleSuccess ''chatgpt''))) Logo
      = Some (exampleAdapter ''huggingface'' True allFeatures (Inr (exampleSuccess ''huggingface'')))"
    by (simp add: getBestProvider_def getAvailableProviders_def getProviders_def priorities_def
        exampleRegistry_def exampleAdapter_def chatgptFeatures_def allFeatures_def)
  have prem: "getProvider (exampleRegistry False (Inr (exampleSuccess ''chatgpt''))) ''chatgpt'' = None
      \<or> (\<exists>p. getProvider (exampleRegistry False (Inr (exampleSuccess ''chatgpt''))) ''chatgpt'' = Some p
             \<and> isAvailable p = Inr False)"
    by (simp add: getProvider_def exampleRegistry_def exampleAdapter_def)
  have tr: "(if transparent (exampleRequest (Some True)) = Some True then Logo else Generation) = Logo"
    by (simp add: exampleRequest_def)
  note sel = preferred_provider_when_available [OF ne(2),
      of "exampleRegistry False (Inr (exampleSuccess ''chatgpt''))" "exampleRequest (Some True)",
      THEN conjunct2, THEN conjunct1, rule_format, OF prem, unfolded tr]
  from sel [THEN conjunct2, THEN conjunct1]
  have c2: "\<exists>rest. snd (ProviderManager_generateImage (exampleRegistry False (Inr (exampleSuccess ''chatgpt'')))
        (exampleRequest (Some True)) (Some ''chatgpt'')) = ''huggingface'' # rest"
    by (simp add: best exampleAdapter_def)
  from sel [THEN conjunct1] c2
  have c: "selectProvider (exampleRegistry False (Inr (exampleSuccess ''chatgpt'')))
        (exampleRequest (Some True)) (Some ''chatgpt'')
       = Inr (getBestProvider (exampleRegistry False (Inr (exampleSuccess ''chatgpt''))) Logo)
     \<and> (\<exists>rest. snd (ProviderManager_generateImage (exampleRegistry False (Inr (exampleSuccess ''chatgpt'')))
        (exampleRequest (Some True)) (Some ''chatgpt'')) = ''huggingface'' # rest)"
    by blast
  from a b c show ?thesis by auto
qed

text \<open>
  Claim C4 as stated fails: an available adapter without the logo capability, named as
  preferred, is invoked for a transparent request.
\<close>

theorem preferred_provider_counterexample:
  "\<not> supportsFeature (exampleAdapter ''jpegonly'' True jpegOnlyFeatures (Inr (exampleSuccess ''jpegonly''))) Logo
   \<and> transparent (exampleRequest (Some True)) = Some True
   \<and> snd (ProviderManager_generateImage
        \<lparr> providers = [(''jpegonly'', exampleAdapter ''jpegonly'' True jpegOnlyFeatures
                           (Inr (exampleSuccess ''jpegonly'')))] \<rparr>
        (exampleRequest (Some True)) (Some ''jpegonly''))
     = [''jpegonly'']"
  by (simp add: ProviderManager_generateImage_def selectProvider_def getProvider_def
      exampleAdapter_def exampleRequest_def jpegOnlyFeatures_def)

section \<open>Claims about validation\<close>

lemma validateRequest_code:
  "validateRequest this request = Inl e \<Longrightarrow> code e = Some ''INVALID_REQUEST''"
  by (auto simp: validateRequest_def createError_def Let_def split: if_splits option.splits)

lemma validateRequest_dimensions:
  assumes "validateRequest this request = Inr u" and "dimensions request = Some d"
  shows "64 \<le> width d \<and> width d \<le> 2048 \<and> 64 \<le> height d \<and> height d \<le> 2048
     \<and> 1 / 4 \<le> real_of_int (width d) / real_of_int (height d)
     \<and> real_of_int (width d) / real_of_int (height d) \<le> 4"
  using assms
  by (auto simp: validateRequest_def Let_def split: if_splits)

text \<open>
  Claim C6. For a request whose width or height lies outside 64..2048, or whose aspect
  ratio lies outside 1:4..4:1, \<open>generateImage\<close> of the adapter never runs the backend
  operation, and on a configured adapter it rejects with INVALID_REQUEST (an adapter
  without client rejects every request with PROVIDER_NOT_CONFIGURED before validating).
\<close>

theorem invalid_dimensions_fail_fast:
  assumes "dimensions request = Some d"
    and "width d < 64 \<or> width d > 2048 \<or> height d < 64 \<or> height d > 2048
         \<or> real_of_int (width d) / real_of_int (height d) < 1 / 4
         \<or> real_of_int (width d) / real_of_int (height d) > 4"
  shows "snd (ChatGPTProvider_generateImage this backend request) = []
     \<and> (\<exists>e. fst (ChatGPTProvider_generateImage this backend request) = Inl e
            \<and> code e = Some (if client this then ''INVALID_REQUEST'' else ''PROVIDER_NOT_CONFIGURED''))"
proof (cases "client this")
  case False
  then show ?thesis by (simp add: ChatGPTProvider_generateImage_def createError_def)
next
  case True
  show ?thesis
  proof (cases "validateRequest (base this) request")
    case (Inl e)
    with True validateRequest_code [OF Inl] show ?thesis
      by (simp add: ChatGPTProvider_generateImage_def)
  next
    case (Inr u)
    from validateRequest_dimensions [OF Inr assms(1)] assms(2) have False by auto
    then show ?thesis ..
  qed
qed

theorem invalid_dimensions_fail_fast_witness:
  "snd (ChatGPTProvider_generateImage (new_ChatGPTProvider exampleConfig) exampleBackend
          ((exampleRequest None) \<lparr> dimensions := Some \<lparr> width = 4000, height = 1024 \<rparr> \<rparr>)) = []
   \<and> (\<exists>e. fst (ChatGPTProvider_generateImage (new_ChatGPTProvider exampleConfig) exampleBackend
          ((exampleRequest None) \<lparr> dimensions := Some \<lparr> width = 4000, height = 1024 \<rparr> \<rparr>)) = Inl e
          \<and> code e = Some ''INVALID_REQUEST'')"
  using invalid_dimensions_fail_fast [of "(exampleRequest None) \<lparr> dimensions := Some \<lparr> width = 4000, height = 1024 \<rparr> \<rparr>"
      "\<lparr> width = 4000, height = 1024 \<rparr>" "new_ChatGPTProvider exampleConfig" exampleBackend]
  by (simp add: new_ChatGPTProvider_def exampleConfig_def)

text \<open>A count other than 0 outside 1..10 is rejected.\<close>

lemma count_out_of_range_rejected:
  assumes "count request = Some c" and "c \<noteq> 0" and "c < 1 \<or> c > 10"
  shows "\<exists>e. validateRequest this request = Inl e \<and> code e = Some ''INVALID_REQUEST''"
  using assms by (auto simp: validateRequest_def createError_def)

text \<open>
  Claim C7 does not hold of the code at count 0: \<open>request.count && ...\<close> treats 0 as
  an absent count, and the validator accepts the request.
\<close>

theorem count_zero_passes_validation:
  "validateRequest (new_BaseImageProvider ''chatgpt'' 30000)
     ((exampleRequest None) \<lparr> count := Some 0 \<rparr>) = Inr ()"
  by (simp add: validateRequest_def exampleRequest_def utf16_def trim_def isWhiteSpace_def)

section \<open>Claims about the result cache\<close>

lemma find_append:
  "find P (xs @ ys) = (case find P xs of None \<Rightarrow> find P ys | Some x \<Rightarrow> Some x)"
  by (induction xs) auto

lemma evict_keeps_newest:
  assumes "0 < m" and "live now e"
  shows "\<exists>pre. evict m now (es @ [e]) = pre @ [e] \<and> set pre \<subseteq> set es"
proof (induction es)
  case Nil
  from assms show ?case by simp
next
  case (Cons x es)
  then obtain pre where pre: "evict m now (es @ [e]) = pre @ [e]" "set pre \<subseteq> set es" by blast
  show ?case
  proof (cases "length (filter (live now) ((x # es) @ [e])) > m")
    case True
    with pre have "evict m now ((x # es) @ [e]) = pre @ [e] \<and> set pre \<subseteq> set (x # es)" by auto
    then show ?thesis by blast
  next
    case False
    then have "evict m now ((x # es) @ [e]) = (x # es) @ [e] \<and> set (x # es) \<subseteq> set (x # es)"
      by auto
    then show ?thesis by blast
  qed
qed

text \<open>
  Claim C9. In a cache whose maximum size is at least one, after \<open>set\<close> of a result for a
  request at time \<open>now\<close>, \<open>get\<close> of the same request returns that result at every time up
  to \<open>now + ttl\<close> and returns absent after it. \<open>get\<close> is a total function: it has no
  failure.
\<close>

theorem cache_round_trip:
  assumes "0 < cacheMaxSize c"
  shows "cache_get (cache_set c request r now) request later
     = (if later \<le> now + ttl c then Some r else None)"
proof -
  let ?e = "\<lparr> entry_fingerprint = fingerprint request, entry_result = r,
                createdAt = now, expiresAt = now + ttl c \<rparr>"
  let ?es = "filter (\<lambda>x. entry_fingerprint x \<noteq> fingerprint request) (entries c)"
  have "live now ?e" by (simp add: live_def)
  from evict_keeps_newest [OF assms this, of ?es] obtain pre where
    pre: "evict (cacheMaxSize c) now (?es @ [?e]) = pre @ [?e]" "set pre \<subseteq> set ?es" by blast
  from pre(2) have "find (\<lambda>x. entry_fingerprint x = fingerprint request) pre = None"
    by (auto simp: find_None_iff)
  then have "find (\<lambda>x. entry_fingerprint x = fingerprint request) (pre @ [?e]) = Some ?e"
    by (simp add: find_append)
  with pre(1) show ?thesis
    by (simp add: cache_get_def cache_set_def Let_def live_def)
qed

theorem cache_round_trip_witness:
  "cache_get (cache_set exampleCache (exampleRequest None) (exampleSuccess ''chatgpt'') 1000)
      (exampleRequest None) 3601000 = Some (exampleSuccess ''chatgpt'')
   \<and> cache_get (cache_set exampleCache (exampleRequest None) (exampleSuccess ''chatgpt'') 1000)
      (exampleRequest None) 3601001 = None"
  using cache_round_trip [of exampleCache "exampleRequest None" "exampleSuccess ''chatgpt''" 1000 3601000]
    cache_round_trip [of exampleCache "exampleRequest None" "exampleSuccess ''chatgpt''" 1000 3601001]
  by (simp add: exampleCache_def)

section \<open>Claims about prompt sanitisation\<close>

text \<open>Characters, boundaries and single alternatives.\<close>

lemma isWordChar_canonicalize [simp]: "isWordChar (canonicalize c) = isWordChar c"
  by (auto simp: isWordChar_def canonicalize_def)

lemma canonicalize_eq_word: "canonicalize a = canonicalize c \<Longrightarrow> isWordChar a = isWordChar c"
  by (metis isWordChar_canonicalize)

lemma whitespace_not_word: "isWhiteSpace c \<Longrightarrow> \<not> isWordChar c"
  by (auto simp: isWhiteSpace_def isWordChar_def)

lemma canonicalize_whitespace: "isWhiteSpace c \<Longrightarrow> canonicalize a = canonicalize c \<Longrightarrow> a = c"
  by (auto simp: isWhiteSpace_def canonicalize_def split: if_splits)

lemma space_is_whitespace [simp]: "isWhiteSpace 32"
  by (simp add: isWhiteSpace_def)

lemma wordBoundary_iff: "wordBoundary p q = (isWordBefore p \<noteq> isWordBefore q)"
  by (simp add: wordBoundary_def isWordBefore_def)

lemma alternating_tl: "alternating (a # w) \<Longrightarrow> alternating w"
  by (cases w) auto

lemma alternating_last: "alternating w \<Longrightarrow> w \<noteq> [] \<Longrightarrow> isWordChar (last w)"
  by (induction w rule: alternating.induct) auto

lemma matchLiteral_length: "matchLiteral w s \<Longrightarrow> length w \<le> length s"
  by (induction w s rule: matchLiteral.induct) auto

lemma matchLiteral_last:
  "matchLiteral w s \<Longrightarrow> w \<noteq> [] \<Longrightarrow> canonicalize (s ! (length w - 1)) = canonicalize (last w)"
proof (induction w s rule: matchLiteral.induct)
  case (3 a w c s)
  then show ?case by (cases w) auto
qed auto

lemma matchThenBoundary_iff:
  "matchThenBoundary w s \<longleftrightarrow>
     matchLiteral w s \<and> (case drop (length w) s of [] \<Rightarrow> True | d # t \<Rightarrow> \<not> isWordChar d)"
  by (induction w s rule: matchThenBoundary.induct) auto

lemma matchAlternative_wordlike:
  assumes "wordlike w"
  shows "matchAlternative prev w s \<longleftrightarrow> \<not> isWordBefore prev \<and> matchThenBoundary w s"
proof (cases "matchLiteral w s")
  case False
  then show ?thesis by (simp add: matchAlternative_def matchThenBoundary_iff)
next
  case True
  from assms obtain a w' where w: "w = a # w'" and a: "isWordChar a"
    by (cases w) (auto simp: wordlike_def)
  with True obtain c s' where s: "s = c # s'" and c: "canonicalize a = canonicalize c"
    by (cases s) auto
  from a c have wc: "isWordChar c" using canonicalize_eq_word by blast
  from assms have "isWordChar (last w)" by (simp add: wordlike_def alternating_last)
  with matchLiteral_last [OF True] w have lastw: "isWordChar (s ! (length w - 1))"
    using canonicalize_eq_word by (metis list.distinct(1))
  have "isWordBefore (case drop (length w) s of [] \<Rightarrow> None | d # t \<Rightarrow> Some d)
      = (\<not> (case drop (length w) s of [] \<Rightarrow> True | d # t \<Rightarrow> \<not> isWordChar d))"
    by (simp add: isWordBefore_def split: list.splits)
  with True w s wc lastw show ?thesis
    by (simp add: matchAlternative_def matchThenBoundary_iff wordBoundary_iff isWordBefore_def)
qed

lemma matchAt_None_iff:
  "matchAt ws prev s = None \<longleftrightarrow> (\<forall>w\<in>set ws. \<not> matchAlternative prev w s)"
  by (auto simp: matchAt_def find_None_iff)

lemma matchAt_SomeD:
  "matchAt ws prev s = Some n \<Longrightarrow> \<exists>w\<in>set ws. matchAlternative prev w s \<and> n = length w"
  by (auto simp: matchAt_def find_Some_iff)

lemma matchAt_wordlike:
  assumes "\<forall>w\<in>set ws. wordlike w" and "matchAt ws prev s = Some n"
  shows "0 < n \<and> n \<le> length s \<and> \<not> isWordBefore prev
     \<and> (case drop n s of [] \<Rightarrow> True | d # t \<Rightarrow> \<not> isWordChar d)"
proof -
  from matchAt_SomeD [OF assms(2)] obtain w where
    w: "w \<in> set ws" "matchAlternative prev w s" "n = length w" by blast
  with assms(1) have wl: "wordlike w" by blast
  with w(2) have m: "\<not> isWordBefore prev" "matchThenBoundary w s"
    by (simp_all add: matchAlternative_wordlike)
  from wl have "w \<noteq> []" by (simp add: wordlike_def)
  with m w(3) show ?thesis
    by (auto simp: matchThenBoundary_iff dest: matchLiteral_length)
qed

lemma matchAt_cong_prev:
  "isWordBefore p = isWordBefore q \<Longrightarrow> matchAt ws p s = matchAt ws q s"
proof -
  assume pq: "isWordBefore p = isWordBefore q"
  have "matchAlternative p w s = matchAlternative q w s" for w
    using pq by (simp add: matchAlternative_def wordBoundary_iff)
  then show ?thesis by (simp add: matchAt_def)
qed

lemma clean_cong_prev:
  "isWordBefore p = isWordBefore q \<Longrightarrow> clean ws p s = clean ws q s"
  by (cases s) (auto simp: matchAt_cong_prev [of p q])

lemma clean_fixpoint: "clean ws prev s \<Longrightarrow> replaceAll ws prev s = s"
  by (induction ws prev s rule: clean.induct) auto

lemma clean_drop:
  "clean ws prev s \<Longrightarrow> 0 < n \<Longrightarrow> n \<le> length s \<Longrightarrow> clean ws (Some (s ! (n - 1))) (drop n s)"
proof (induction s arbitrary: prev n)
  case Nil
  then show ?case by simp
next
  case (Cons c cs)
  show ?case
  proof (cases "n = 1")
    case True
    with Cons.prems show ?thesis by simp
  next
    case False
    with Cons.prems obtain m where m: "n = Suc m" "0 < m" "m \<le> length cs"
      by (cases n) auto
    from Cons.prems have "clean ws (Some c) cs" by simp
    from Cons.IH [OF this m(2,3)] m show ?thesis by (cases m) auto
  qed
qed


text \<open>
  Deleting matches never makes a new one. Every deleted match has a character outside the
  word characters, or an end of the string, on either side; so where something was cut out
  two such characters meet, and no wordlike pattern can lie across that place.
\<close>

lemma matchAt_nonword:
  assumes "\<forall>w\<in>set ws. wordlike w" and "\<not> isWordChar b"
  shows "matchAt ws prev (b # t) = None"
proof -
  have "\<not> matchAlternative prev w (b # t)" if "w \<in> set ws" for w
  proof -
    from that assms(1) have wl: "wordlike w" by blast
    then obtain a w' where "w = a # w'" "isWordChar a" by (cases w) (auto simp: wordlike_def)
    with assms(2) have "\<not> matchThenBoundary w (b # t)"
      by (auto dest: canonicalize_eq_word)
    with wl show ?thesis by (simp add: matchAlternative_wordlike)
  qed
  then show ?thesis by (simp add: matchAt_None_iff)
qed

lemma replaceAll_keeps_nonword:
  assumes "\<forall>w\<in>set ws. wordlike w" and "\<not> isWordChar b"
  shows "replaceAll ws prev (b # t) = b # replaceAll ws (Some b) t"
  using matchAt_nonword [OF assms] by simp

lemma matchThenBoundary_replaceAll:
  assumes wl: "\<forall>w\<in>set ws. wordlike w"
  shows "matchThenBoundary w (replaceAll ws prev s) \<Longrightarrow> alternating w
     \<Longrightarrow> isWordBefore prev \<or> (w \<noteq> [] \<and> isWordChar (hd w))
     \<Longrightarrow> matchThenBoundary w s"
  using wl
proof (induction ws prev s arbitrary: w rule: replaceAll.induct)
  case (1 ws prev)
  then show ?case by simp
next
  case (2 ws prev c cs)
  note wl = \<open>\<forall>w\<in>set ws. wordlike w\<close>
  show ?case
  proof (cases "matchAt ws prev (c # cs)")
    case None
    then have out: "replaceAll ws prev (c # cs) = c # replaceAll ws (Some c) cs" by simp
    show ?thesis
    proof (cases w)
      case Nil
      with "2.prems"(1) out show ?thesis by simp
    next
      case (Cons a w')
      with "2.prems"(1) out have ac: "canonicalize a = canonicalize c"
        and m: "matchThenBoundary w' (replaceAll ws (Some c) cs)" by simp_all
      from "2.prems"(2) Cons have alt: "alternating w'" using alternating_tl by blast
      have link: "isWordBefore (Some c) \<or> (w' \<noteq> [] \<and> isWordChar (hd w'))"
      proof (cases "isWordChar c")
        case True
        then show ?thesis by (simp add: isWordBefore_def)
      next
        case False
        with ac have na: "\<not> isWordChar a" using canonicalize_eq_word by blast
        with "2.prems"(2) Cons show ?thesis by (cases w') auto
      qed
      from "2.IH"(1) [OF None m alt link wl] ac Cons show ?thesis by simp
    qed
  next
    case (Some n)
    from matchAt_wordlike [OF wl Some] have n: "0 < n" "n \<le> length (c # cs)"
      and np: "\<not> isWordBefore prev"
      and nxt: "case drop n (c # cs) of [] \<Rightarrow> True | d # t \<Rightarrow> \<not> isWordChar d" by simp_all
    from Some n have out: "replaceAll ws prev (c # cs)
        = replaceAll ws (Some ((c # cs) ! (n - 1))) (drop n (c # cs))" by simp
    from np "2.prems"(3) obtain a w' where w: "w = a # w'" and a: "isWordChar a"
      by (cases w) auto
    have "\<not> matchThenBoundary w (replaceAll ws (Some ((c # cs) ! (n - 1))) (drop n (c # cs)))"
    proof (cases "drop n (c # cs)")
      case Nil
      with w show ?thesis by simp
    next
      case (Cons b t)
      with nxt have b: "\<not> isWordChar b" by simp
      from replaceAll_keeps_nonword [OF wl b] Cons w a b show ?thesis
        by (auto dest: canonicalize_eq_word)
    qed
    with "2.prems"(1) out show ?thesis by simp
  qed
qed

lemma clean_replaceAll:
  assumes wl: "\<forall>w\<in>set ws. wordlike w" and wl': "\<forall>w\<in>set ws'. wordlike w"
  shows "ws' = ws \<or> clean ws' pin s
     \<Longrightarrow> isWordBefore pout = isWordBefore pin
          \<or> (\<not> isWordBefore pout \<and> (case s of [] \<Rightarrow> True | d # t \<Rightarrow> \<not> isWordChar d))
     \<Longrightarrow> clean ws' pout (replaceAll ws pin s)"
  using wl
proof (induction ws pin s arbitrary: pout rule: replaceAll.induct)
  case (1 ws prev)
  then show ?case by simp
next
  case (2 ws pin c cs)
  note wl = \<open>\<forall>w\<in>set ws. wordlike w\<close>
  show ?case
  proof (cases "matchAt ws pin (c # cs)")
    case None
    then have out: "replaceAll ws pin (c # cs) = c # replaceAll ws (Some c) cs" by simp
    from "2.prems"(1) None have none': "matchAt ws' pin (c # cs) = None" by auto
    from "2.prems"(1) have hyp: "ws' = ws \<or> clean ws' (Some c) cs" by auto
    have rest: "clean ws' (Some c) (replaceAll ws (Some c) cs)"
      using "2.IH"(1) [OF None hyp _ wl, of "Some c"] by simp
    have "\<not> matchAlternative pout w (c # replaceAll ws (Some c) cs)" if win: "w \<in> set ws'" for w
    proof
      assume ma: "matchAlternative pout w (c # replaceAll ws (Some c) cs)"
      from win wl' have wlw: "wordlike w" by blast
      with ma have npo: "\<not> isWordBefore pout"
        and m: "matchThenBoundary w (c # replaceAll ws (Some c) cs)"
        by (simp_all add: matchAlternative_wordlike)
      from wlw obtain a w' where w: "w = a # w'" and a: "isWordChar a" and alt: "alternating w"
        by (cases w) (auto simp: wordlike_def)
      from m w have ac: "canonicalize a = canonicalize c"
        and m': "matchThenBoundary w' (replaceAll ws (Some c) cs)" by simp_all
      from a ac have c: "isWordChar c" using canonicalize_eq_word by blast
      from alt w have alt': "alternating w'" using alternating_tl by blast
      from c have "isWordBefore (Some c) \<or> (w' \<noteq> [] \<and> isWordChar (hd w'))"
        by (simp add: isWordBefore_def)
      from matchThenBoundary_replaceAll [OF wl m' alt' this] ac w
      have mtb: "matchThenBoundary w (c # cs)" by simp
      from "2.prems"(2) npo c have "\<not> isWordBefore pin" by auto
      with mtb wlw have "matchAlternative pin w (c # cs)" by (simp add: matchAlternative_wordlike)
      with none' win show False by (simp add: matchAt_None_iff)
    qed
    then have "matchAt ws' pout (c # replaceAll ws (Some c) cs) = None"
      by (simp add: matchAt_None_iff)
    with rest out show ?thesis by simp
  next
    case (Some n)
    from matchAt_wordlike [OF wl Some] have n: "0 < n" "n \<le> length (c # cs)"
      and np: "\<not> isWordBefore pin"
      and nxt: "case drop n (c # cs) of [] \<Rightarrow> True | d # t \<Rightarrow> \<not> isWordChar d" by simp_all
    from Some n have out: "replaceAll ws pin (c # cs)
        = replaceAll ws (Some ((c # cs) ! (n - 1))) (drop n (c # cs))" by simp
    from "2.prems"(1) n have hyp: "ws' = ws \<or> clean ws' (Some ((c # cs) ! (n - 1))) (drop n (c # cs))"
      using clean_drop [of ws' pin "c # cs" n] by blast
    from "2.prems"(2) np have npo: "\<not> isWordBefore pout" by auto
    from n have n0: "n \<noteq> 0" by simp
    have "clean ws' pout (replaceAll ws (Some ((c # cs) ! (n - 1))) (drop n (c # cs)))"
      using "2.IH"(3) [OF Some n0 hyp _ wl, of pout] npo nxt by simp
    with out show ?thesis by simp
  qed
qed


text \<open>White space: collapsing and trimming reach a fixed point and keep a string clean.\<close>

lemma collapsed_Cons_nonws: "\<not> isWhiteSpace c \<Longrightarrow> collapsed xs \<Longrightarrow> collapsed (c # xs)"
  by (cases xs) auto

lemma collapsed_tl: "collapsed (c # s) \<Longrightarrow> collapsed s"
  by (cases s) auto

lemma collapsed_dropWhile: "collapsed s \<Longrightarrow> collapsed (dropWhile P s)"
  by (induction s) (auto dest: collapsed_tl)

lemma collapsed_append_left: "collapsed (xs @ ys) \<Longrightarrow> collapsed xs"
proof (induction xs rule: collapsed.induct)
  case (2 c)
  then show ?case by (cases ys) auto
qed auto

lemma collapsed_collapseWhitespace: "collapsed (collapseWhitespace s)"
proof (induction s rule: collapseWhitespace.induct)
  case 1
  then show ?case by simp
next
  case (2 c cs)
  show ?case
  proof (cases "isWhiteSpace c")
    case False
    with 2 show ?thesis by (simp add: collapsed_Cons_nonws)
  next
    case True
    with 2 have ih: "collapsed (collapseWhitespace (dropWhile isWhiteSpace cs))" by simp
    show ?thesis
    proof (cases "dropWhile isWhiteSpace cs")
      case Nil
      then have "collapseWhitespace (dropWhile isWhiteSpace cs) = []"
        by (simp only: collapseWhitespace.simps)
      with True show ?thesis by simp
    next
      case (Cons d t)
      then have "\<not> isWhiteSpace d" by (metis hd_dropWhile list.distinct(1) list.sel(1))
      with True Cons ih show ?thesis by simp
    qed
  qed
qed

lemma collapsed_fixpoint: "collapsed s \<Longrightarrow> collapseWhitespace s = s"
  by (induction s rule: collapsed.induct) auto

lemma trim_decomposition:
  "\<exists>suf. dropWhile isWhiteSpace s = trim s @ suf \<and> (\<forall>c\<in>set suf. isWhiteSpace c)"
proof -
  let ?u = "dropWhile isWhiteSpace s"
  have "rev (takeWhile isWhiteSpace (rev ?u) @ dropWhile isWhiteSpace (rev ?u)) = ?u"
    by (simp only: takeWhile_dropWhile_id rev_rev_ident)
  then have "?u = rev (dropWhile isWhiteSpace (rev ?u)) @ rev (takeWhile isWhiteSpace (rev ?u))"
    by (simp only: rev_append)
  then have "?u = trim s @ rev (takeWhile isWhiteSpace (rev ?u))"
    by (simp only: trim_def)
  moreover have "\<forall>c\<in>set (rev (takeWhile isWhiteSpace (rev ?u))). isWhiteSpace c"
    by (auto dest: set_takeWhileD)
  ultimately show ?thesis by blast
qed

lemma collapsed_trim: "collapsed s \<Longrightarrow> collapsed (trim s)"
proof -
  assume "collapsed s"
  then have "collapsed (dropWhile isWhiteSpace s)" by (rule collapsed_dropWhile)
  with trim_decomposition [of s] show ?thesis by (auto dest: collapsed_append_left)
qed

lemma trimmed_trim: "trimmed (trim s)"
proof (cases "trim s = []")
  case True
  then show ?thesis by (simp add: trimmed_def)
next
  case False
  let ?u = "dropWhile isWhiteSpace s"
  from False have ne: "dropWhile isWhiteSpace (rev ?u) \<noteq> []" by (simp add: trim_def)
  have "last (trim s) = hd (dropWhile isWhiteSpace (rev ?u))"
    using ne by (simp add: trim_def last_rev)
  with hd_dropWhile [OF ne] have l: "\<not> isWhiteSpace (last (trim s))" by simp
  from trim_decomposition [of s] obtain suf where suf: "?u = trim s @ suf" by blast
  with False have "?u \<noteq> []" and "hd ?u = hd (trim s)" by auto
  with hd_dropWhile [of isWhiteSpace s] have "\<not> isWhiteSpace (hd (trim s))" by simp
  with l show ?thesis by (simp add: trimmed_def)
qed

lemma trim_fixpoint: "trimmed s \<Longrightarrow> trim s = s"
proof (cases "s = []")
  case True
  then show ?thesis by (simp add: trim_def)
next
  case False
  assume "trimmed s"
  with False have h: "\<not> isWhiteSpace (hd s)" and l: "\<not> isWhiteSpace (last s)"
    by (simp_all add: trimmed_def)
  from False h have a: "dropWhile isWhiteSpace s = s" by (cases s) auto
  from False l have "dropWhile isWhiteSpace (rev s) = rev s"
    by (cases "rev s") (auto simp: last_rev [symmetric] simp del: last_rev)
  with a show ?thesis by (simp add: trim_def)
qed

lemma clean_dropWhile:
  "clean ws prev s \<Longrightarrow> \<not> isWordBefore prev \<Longrightarrow> clean ws prev (dropWhile isWhiteSpace s)"
proof (induction s arbitrary: prev)
  case Nil
  then show ?case by simp
next
  case (Cons c cs)
  show ?case
  proof (cases "isWhiteSpace c")
    case False
    with Cons.prems show ?thesis by simp
  next
    case True
    then have nw: "\<not> isWordBefore (Some c)" by (simp add: isWordBefore_def whitespace_not_word)
    from Cons.prems have "clean ws (Some c) cs" by simp
    from Cons.IH [OF this nw] have "clean ws (Some c) (dropWhile isWhiteSpace cs)" .
    with nw Cons.prems(2) have "clean ws prev (dropWhile isWhiteSpace cs)"
      using clean_cong_prev [of prev "Some c"] by simp
    with True show ?thesis by simp
  qed
qed

lemma matchThenBoundary_append:
  "matchThenBoundary w x \<Longrightarrow> (case u of [] \<Rightarrow> True | d # t \<Rightarrow> \<not> isWordChar d)
     \<Longrightarrow> matchThenBoundary w (x @ u)"
  by (induction w x rule: matchThenBoundary.induct) (auto split: list.splits)

lemma clean_append_left:
  assumes wl: "\<forall>w\<in>set ws. wordlike w"
    and u: "case u of [] \<Rightarrow> True | d # t \<Rightarrow> \<not> isWordChar d"
  shows "clean ws prev (t @ u) \<Longrightarrow> clean ws prev t"
proof (induction t arbitrary: prev)
  case Nil
  then show ?case by simp
next
  case (Cons c t)
  from Cons.prems have none: "matchAt ws prev (c # t @ u) = None"
    and rest: "clean ws (Some c) (t @ u)" by simp_all
  have "\<not> matchAlternative prev w (c # t)" if "w \<in> set ws" for w
  proof
    assume ma: "matchAlternative prev w (c # t)"
    from that wl have wlw: "wordlike w" by blast
    with ma have "\<not> isWordBefore prev" "matchThenBoundary w (c # t)"
      by (simp_all add: matchAlternative_wordlike)
    with matchThenBoundary_append [OF _ u, of w "c # t"] wlw
    have "matchAlternative prev w (c # t @ u)" by (simp add: matchAlternative_wordlike)
    with none that show False by (simp add: matchAt_None_iff)
  qed
  then have "matchAt ws prev (c # t) = None" by (simp add: matchAt_None_iff)
  with Cons.IH [OF rest] show ?case by simp
qed

lemma clean_trim:
  assumes wl: "\<forall>w\<in>set ws. wordlike w" and "clean ws None s"
  shows "clean ws None (trim s)"
proof -
  from assms(2) have c: "clean ws None (dropWhile isWhiteSpace s)"
    by (rule clean_dropWhile) (simp add: isWordBefore_def)
  from trim_decomposition [of s] obtain suf where
    suf: "dropWhile isWhiteSpace s = trim s @ suf" "\<forall>c\<in>set suf. isWhiteSpace c" by blast
  from suf(2) have "case suf of [] \<Rightarrow> True | d # t \<Rightarrow> \<not> isWordChar d"
    by (auto split: list.splits dest: whitespace_not_word)
  from clean_append_left [OF wl this] c suf(1) show ?thesis by simp
qed

lemma matchThenBoundary_collapseWhitespace:
  "matchThenBoundary w (collapseWhitespace s) \<Longrightarrow> \<forall>a\<in>set w. \<not> isWhiteSpace a
     \<Longrightarrow> matchThenBoundary w s"
proof (induction s arbitrary: w rule: collapseWhitespace.induct)
  case 1
  then show ?case by simp
next
  case (2 c cs)
  show ?case
  proof (cases "isWhiteSpace c")
    case True
    show ?thesis
    proof (cases w)
      case Nil
      with True show ?thesis by (simp add: whitespace_not_word)
    next
      case (Cons a w')
      with True "2.prems"(1) have "canonicalize a = canonicalize 32" by simp
      then have "a = 32" using canonicalize_whitespace [of 32 a] by simp
      with "2.prems"(2) Cons have False by auto
      then show ?thesis ..
    qed
  next
    case False
    show ?thesis
    proof (cases w)
      case Nil
      with False "2.prems"(1) show ?thesis by simp
    next
      case (Cons a w')
      with False "2.prems" have ac: "canonicalize a = canonicalize c"
        and m: "matchThenBoundary w' (collapseWhitespace cs)"
        and nw: "\<forall>a\<in>set w'. \<not> isWhiteSpace a" by simp_all
      from "2.IH"(2) [OF False m nw] ac Cons show ?thesis by simp
    qed
  qed
qed

lemma clean_collapseWhitespace:
  assumes wl: "\<forall>w\<in>set ws. wordlike w"
  shows "clean ws prev s \<Longrightarrow> clean ws prev (collapseWhitespace s)"
proof (induction s arbitrary: prev rule: collapseWhitespace.induct)
  case 1
  then show ?case by simp
next
  case (2 c cs)
  show ?case
  proof (cases "isWhiteSpace c")
    case True
    have nw32: "\<not> isWordBefore (Some 32)" and nwc: "\<not> isWordBefore (Some c)"
      using True by (simp_all add: isWordBefore_def whitespace_not_word)
    from "2.prems" have "clean ws (Some c) cs" by simp
    then have "clean ws (Some c) (dropWhile isWhiteSpace cs)" using nwc by (rule clean_dropWhile)
    then have "clean ws (Some 32) (dropWhile isWhiteSpace cs)"
      using clean_cong_prev [of "Some 32" "Some c"] nw32 nwc by simp
    from "2.IH"(1) [OF True this]
    have rest: "clean ws (Some 32) (collapseWhitespace (dropWhile isWhiteSpace cs))" .
    have "\<not> isWordChar 32" by (simp add: whitespace_not_word)
    from matchAt_nonword [OF wl this] rest True show ?thesis by simp
  next
    case False
    from "2.prems" have none: "matchAt ws prev (c # cs) = None"
      and "clean ws (Some c) cs" by simp_all
    from "2.IH"(2) [OF False this(2)] have rest: "clean ws (Some c) (collapseWhitespace cs)" .
    have "\<not> matchAlternative prev w (c # collapseWhitespace cs)" if "w \<in> set ws" for w
    proof
      assume ma: "matchAlternative prev w (c # collapseWhitespace cs)"
      from that wl have wlw: "wordlike w" by blast
      with ma have np: "\<not> isWordBefore prev"
        and m: "matchThenBoundary w (collapseWhitespace (c # cs))"
        using False by (simp_all add: matchAlternative_wordlike)
      from wlw have "\<forall>a\<in>set w. \<not> isWhiteSpace a" by (simp add: wordlike_def)
      from matchThenBoundary_collapseWhitespace [OF m this] np wlw
      have "matchAlternative prev w (c # cs)" by (simp add: matchAlternative_wordlike)
      with none that show False by (simp add: matchAt_None_iff)
    qed
    then have "matchAt ws prev (c # collapseWhitespace cs) = None" by (simp add: matchAt_None_iff)
    with rest False show ?thesis by simp
  qed
qed

lemma clean_foldl:
  assumes wl': "\<forall>w\<in>set ws'. wordlike w"
  shows "\<forall>ws\<in>set patterns. \<forall>w\<in>set ws. wordlike w \<Longrightarrow> ws' \<in> set patterns \<or> clean ws' None s
     \<Longrightarrow> clean ws' None (foldl (\<lambda>s pattern. replaceAll pattern None s) s patterns)"
proof (induction patterns arbitrary: s)
  case Nil
  then show ?case by simp
next
  case (Cons pattern patterns)
  from Cons.prems(1) have wl: "\<forall>w\<in>set pattern. wordlike w"
    and wls: "\<forall>ws\<in>set patterns. \<forall>w\<in>set ws. wordlike w" by simp_all
  have step: "clean ws' None (replaceAll pattern None s)" if "ws' = pattern \<or> clean ws' None s"
    using clean_replaceAll [OF wl wl' that, of None] by simp
  from Cons.prems(2) have "ws' \<in> set patterns \<or> clean ws' None (replaceAll pattern None s)"
    using step by auto
  from Cons.IH [OF wls this] show ?case by simp
qed

lemma foldl_fixpoint:
  "\<forall>ws\<in>set patterns. clean ws None s
     \<Longrightarrow> foldl (\<lambda>s pattern. replaceAll pattern None s) s patterns = s"
  by (induction patterns) (auto simp: clean_fixpoint)

lemma harmfulPatterns_wordlike: "\<forall>ws\<in>set harmfulPatterns. \<forall>w\<in>set ws. wordlike w"
  by (simp add: harmfulPatterns_def utf16_def wordlike_def isWordChar_def isWhiteSpace_def)


text \<open>The model at work: case-insensitive whole words go, \<open>hacker\<close> stays.\<close>

lemma sanitizePrompt_example:
  "sanitizePrompt (utf16 ''  a  HACK, hacker self-harm '') = utf16 ''a , hacker''"
  by (simp add: sanitizePrompt_def harmfulPatterns_def utf16_def trim_def isWhiteSpace_def
      matchAt_def matchAlternative_def wordBoundary_def isWordChar_def canonicalize_def Let_def)


text \<open>
  Claim C10. \<open>sanitizePrompt\<close> is idempotent: sanitising a sanitised prompt returns it
  unchanged, for every prompt.
\<close>

theorem sanitizePrompt_idempotent: "sanitizePrompt (sanitizePrompt p) = sanitizePrompt p"
proof -
  define y where
    "y = foldl (\<lambda>s pattern. replaceAll pattern None s) (collapseWhitespace (trim p)) harmfulPatterns"
  define r where "r = trim (collapseWhitespace y)"
  have r: "sanitizePrompt p = r"
    by (simp add: sanitizePrompt_def Let_def y_def r_def)
  have cy: "clean ws None y" if "ws \<in> set harmfulPatterns" for ws
  proof -
    from that harmfulPatterns_wordlike have "\<forall>w\<in>set ws. wordlike w" by blast
    from clean_foldl [OF this harmfulPatterns_wordlike, of "collapseWhitespace (trim p)"] that
    show ?thesis by (simp add: y_def)
  qed
  have cr: "\<forall>ws\<in>set harmfulPatterns. clean ws None r"
  proof
    fix ws assume ws: "ws \<in> set harmfulPatterns"
    with harmfulPatterns_wordlike have wl: "\<forall>w\<in>set ws. wordlike w" by blast
    from clean_collapseWhitespace [OF wl cy [OF ws]] have "clean ws None (collapseWhitespace y)" .
    from clean_trim [OF wl this] show "clean ws None r" by (simp add: r_def)
  qed
  have tr: "trim r = r" unfolding r_def by (rule trim_fixpoint) (rule trimmed_trim)
  have "collapsed r" unfolding r_def by (rule collapsed_trim) (rule collapsed_collapseWhitespace)
  then have cl: "collapseWhitespace r = r" by (rule collapsed_fixpoint)
  from cr have fl: "foldl (\<lambda>s pattern. replaceAll pattern None s) r harmfulPatterns = r"
    by (rule foldl_fixpoint)
  have "sanitizePrompt r = r"
    by (simp add: sanitizePrompt_def Let_def tr cl fl)
  with r show ?thesis by simp
qed

end
